theory Spec2Isabelle
  imports Main "HOL-Library.Word" "HOL-Library.Signed_Division"
begin

section \<open>Machine types of \<^verbatim>\<open>faigz.h\<close>\<close>

text \<open>
  The embedding fixes an LP64 platform: \<^verbatim>\<open>hts_pos_t\<close> (htslib's \<^verbatim>\<open>int64_t\<close>),
  \<^verbatim>\<open>ssize_t\<close> and \<^verbatim>\<open>off_t\<close> are 64-bit words read with \<open>sint\<close>;
  \<^verbatim>\<open>uint64_t\<close> and \<^verbatim>\<open>size_t\<close> are 64-bit words read with \<open>unat\<close>;
  \<^verbatim>\<open>uint32_t\<close> is a 32-bit word. Addition, subtraction and multiplication wrap
  around, conversions between signed and unsigned of one width keep the bits.
\<close>

type_synonym hts_pos_t = "64 word"
type_synonym ssize_t = "64 word"
type_synonym uint64_t = "64 word"
type_synonym uint32_t = "32 word"
type_synonym c_int = "32 word"
type_synonym byte = "8 word"

definition SIZE_MAX :: nat where
  "SIZE_MAX = 2 ^ 64 - 1"

definition INT_MAX :: int where
  "INT_MAX = 2 ^ 31 - 1"

text \<open>
  What C leaves undefined is a value of the model: a division by zero, a read or write
  through a null or dangling pointer, a write outside an allocated block.
\<close>

datatype fault = DivByZero | NullDeref | UseAfterFree | BufferOverflow

text \<open>
  C's \<^verbatim>\<open>/\<close> and \<^verbatim>\<open>%\<close> on \<^verbatim>\<open>int64_t\<close>: truncation towards zero, and no value
  when the divisor is zero.
\<close>

definition c_div :: "64 word \<Rightarrow> 64 word \<Rightarrow> 64 word option" where
  "c_div a b = (if b = 0 then None else Some (word_of_int (sint a sdiv sint b)))"

definition c_mod :: "64 word \<Rightarrow> 64 word \<Rightarrow> 64 word option" where
  "c_mod a b = (if b = 0 then None else Some (word_of_int (sint a smod sint b)))"

section \<open>Data model\<close>

text \<open>\<^verbatim>\<open>faidx1_t\<close> (faigz.h, lines 20-26): the layout descriptor of one sequence.\<close>

record faidx1_t =
  id1 :: int
  line_len :: uint32_t
  line_blen :: uint32_t
  len :: uint64_t
  seq_offset :: uint64_t
  qual_offset :: uint64_t

datatype fai_format_options = FAI_NONE | FAI_FASTA | FAI_FASTQ

text \<open>
  The \<^verbatim>\<open>.gzi\<close> table: \<^verbatim>\<open>noffs\<close>, \<^verbatim>\<open>moffs\<close> and the array \<^verbatim>\<open>offs\<close> of
  \<^verbatim>\<open>(caddr, uaddr)\<close> pairs.
\<close>

record bgzidx_t =
  noffs :: int
  moffs :: int
  offs :: "(uint64_t \<times> uint64_t) list"

text \<open>
  \<^verbatim>\<open>faidx_meta_t\<close> (lines 31-51). The khash table is a map from names to descriptors;
  a pointer that may be null is an \<open>option\<close>. The mutex only serialises the updates of
  \<^verbatim>\<open>ref_count\<close> and carries no data. \<^verbatim>\<open>ref_count\<close> is a C \<^verbatim>\<open>int\<close>: a 32-bit
  word read with \<open>sint\<close>. Counting past \<^verbatim>\<open>INT_MAX\<close> is undefined in C; the compiled
  \<^verbatim>\<open>++\<close> and \<^verbatim>\<open>--\<close> wrap around in two's complement, and so do those of the
  embedding.
\<close>

record faidx_meta_t =
  n :: int
  m :: int
  name :: "string list"
  hash :: "string \<rightharpoonup> faidx1_t"
  format :: fai_format_options
  fasta_path :: string
  fai_path :: string
  gzi_path :: string
  bgzf_idx :: "bgzidx_t option"
  ref_count :: c_int
  is_bgzf :: bool

section \<open>The decoder and the allocator\<close>

text \<open>
  \<^verbatim>\<open>bgzf_useek\<close> and \<^verbatim>\<open>bgzf_read\<close> belong to htslib. They are parameters of the
  embedding, over any type \<open>'d\<close> of decoder states: \<open>bgzf_useek\<close> takes the state
  and the \<^verbatim>\<open>off_t\<close> it is asked to seek to (always with \<^verbatim>\<open>SEEK_SET\<close>) and gives the
  new state and its \<^verbatim>\<open>int\<close> result; \<open>bgzf_read\<close> takes the state and the requested
  \<^verbatim>\<open>size_t\<close> length and gives the new state and either an error or the bytes it stored.
\<close>

datatype rd = RdErr | RdOk "byte list"

record 'd bgzf_lib =
  bgzf_useek :: "'d \<Rightarrow> 64 word \<Rightarrow> 'd \<times> int"
  bgzf_read :: "'d \<Rightarrow> 64 word \<Rightarrow> 'd \<times> rd"

text \<open>The \<^verbatim>\<open>ssize_t\<close> that \<^verbatim>\<open>bgzf_read\<close> returns, and the bytes it stored.\<close>

fun nread :: "rd \<Rightarrow> int" where
  "nread RdErr = - 1"
| "nread (RdOk bs) = int (length bs)"

fun rd_bytes :: "rd \<Rightarrow> byte list" where
  "rd_bytes RdErr = []"
| "rd_bytes (RdOk bs) = bs"

text \<open>
  \<^verbatim>\<open>malloc\<close> is a parameter too: from the requested size to nothing (a null pointer)
  or to the contents the fresh block happens to have. A block is a function from
  indices to bytes, with its capacity kept beside it.
\<close>

type_synonym block = "nat \<Rightarrow> byte"
type_synonym allocator = "64 word \<Rightarrow> block option"

definition write_at :: "block \<Rightarrow> nat \<Rightarrow> byte list \<Rightarrow> block" where
  "write_at buffer p bs = (\<lambda>i. if p \<le> i \<and> i < p + length bs then bs ! (i - p) else buffer i)"

text \<open>The bytes a caller sees before the terminating NUL stored at index \<open>k\<close>.\<close>

definition c_string :: "block \<Rightarrow> nat \<Rightarrow> byte list" where
  "c_string buffer k = map buffer [0..<k]"

section \<open>Retrieval\<close>

text \<open>
  The loop of \<^verbatim>\<open>fai_retrieve\<close> over the complete lines (lines 588-597). Its state is
  the decoder, the buffer, the offset of \<^verbatim>\<open>s\<close> in the buffer and \<^verbatim>\<open>remaining\<close>.
  The result is a fault, or the decoder with nothing (a short read: the caller frees the
  buffer and returns null) or with the state after the loop. With \<^verbatim>\<open>line_blen = 0\<close>
  and \<^verbatim>\<open>remaining > 0\<close> the loop never ends, and the value is \<open>None\<close>.
\<close>

partial_function (option) read_lines ::
  "'d bgzf_lib \<Rightarrow> faidx1_t \<Rightarrow> nat \<Rightarrow> 'd \<Rightarrow> block \<Rightarrow> nat \<Rightarrow> ssize_t
     \<Rightarrow> (fault + 'd \<times> (block \<times> nat \<times> ssize_t) option) option" where
  "read_lines lib val cap bgzf buffer s remaining =
     (if uint (line_blen val) < sint remaining then
        (case bgzf_read lib bgzf (ucast (line_len val)) of (bgzf', r) \<Rightarrow>
           if nread r < uint (line_len val) then Some (Inr (bgzf', None))
           else if cap < s + length (rd_bytes r) then Some (Inl BufferOverflow)
           else read_lines lib val cap bgzf' (write_at buffer s (rd_bytes r))
                  (s + unat (line_blen val)) (remaining - ucast (line_blen val)))
      else Some (Inr (bgzf, Some (buffer, s, remaining))))"

text \<open>
  \<^verbatim>\<open>fai_retrieve\<close> (lines 529-612). The result is \<open>None\<close> when the call does not
  return, a fault, or the returned pointer (the bytes of the C string, \<open>None\<close> for null),
  the value left in \<^verbatim>\<open>*len\<close> and the decoder. \<^verbatim>\<open>len\<close> itself is not null: line 559
  stores through it without a test. The function is cut at line 563 into the part for an
  interval within one line, the part for an interval over several lines, and the head
  with the two guards, the seek and the allocation.
\<close>

type_synonym 'd fetched = "(fault + byte list option \<times> hts_pos_t \<times> 'd) option"

text \<open>Lines 564-571: \<^verbatim>\<open>remaining <= firstline_blen\<close>, one read of \<^verbatim>\<open>remaining\<close> bytes.\<close>

definition retrieve_one_line ::
  "'d bgzf_lib \<Rightarrow> 'd \<Rightarrow> block \<Rightarrow> nat \<Rightarrow> ssize_t \<Rightarrow> 'd fetched" where
  "retrieve_one_line lib bgzf buffer cap remaining =
     (case bgzf_read lib bgzf remaining of (bgzf', r) \<Rightarrow>
        if nread r < sint remaining then Some (Inr (None, - 1, bgzf'))
        else if nread r < 0 \<or> cap \<le> length (rd_bytes r) then Some (Inl BufferOverflow)
        else Some (Inr (Some (c_string (write_at buffer 0 (rd_bytes r)) (length (rd_bytes r))),
                        remaining, bgzf')))"

text \<open>
  Lines 600-611: the final partial line and the terminating NUL, from the state
  \<open>(buffer, s, remaining)\<close> the loop ended in; \<open>count\<close> is the value line 559 stored
  in \<^verbatim>\<open>*len\<close>.
\<close>

definition retrieve_last_line ::
  "'d bgzf_lib \<Rightarrow> nat \<Rightarrow> hts_pos_t \<Rightarrow> 'd \<Rightarrow> block \<Rightarrow> nat \<Rightarrow> ssize_t \<Rightarrow> 'd fetched" where
  "retrieve_last_line lib cap count bgzf buffer s remaining =
     (if 0 <s remaining then
        (case bgzf_read lib bgzf remaining of (bgzf', r) \<Rightarrow>
           if nread r < sint remaining then Some (Inr (None, - 1, bgzf'))
           else if cap < s + length (rd_bytes r) \<or> cap \<le> s + unat remaining
             then Some (Inl BufferOverflow)
           else Some (Inr (Some (c_string (write_at buffer s (rd_bytes r)) (s + unat remaining)),
                           count, bgzf')))
      else if cap \<le> s then Some (Inl BufferOverflow)
      else Some (Inr (Some (c_string buffer s), count, bgzf)))"

text \<open>
  Lines 574-611: the first line, read with its terminator (\<^verbatim>\<open>firstline_len\<close> bytes) and
  kept up to \<^verbatim>\<open>firstline_blen\<close>, then the complete lines, then the last one. \<open>r\<close> is
  \<^verbatim>\<open>beg % val->line_blen\<close>.
\<close>

definition retrieve_lines ::
  "'d bgzf_lib \<Rightarrow> faidx1_t \<Rightarrow> 'd \<Rightarrow> block \<Rightarrow> nat \<Rightarrow> 64 word \<Rightarrow> ssize_t \<Rightarrow> 'd fetched" where
  "retrieve_lines lib val bgzf buffer cap r remaining =
     (let firstline_blen = ucast (line_blen val) - r;
          firstline_len = ucast (line_len val) - r
      in case bgzf_read lib bgzf firstline_len of (bgzf', r1) \<Rightarrow>
           if nread r1 < sint firstline_len then Some (Inr (None, - 1, bgzf'))
           else if cap < length (rd_bytes r1) then Some (Inl BufferOverflow)
           else
             (case read_lines lib val cap bgzf' (write_at buffer 0 (rd_bytes r1))
                     (unat firstline_blen) (remaining - firstline_blen) of
                None \<Rightarrow> None
              | Some (Inl f) \<Rightarrow> Some (Inl f)
              | Some (Inr (bgzf'', None)) \<Rightarrow> Some (Inr (None, - 1, bgzf''))
              | Some (Inr (bgzf'', Some (buffer', s, remaining'))) \<Rightarrow>
                  retrieve_last_line lib cap remaining bgzf'' buffer' s remaining'))"

text \<open>
  The operand of \<^verbatim>\<open>bgzf_useek\<close> at line 545,
  \<^verbatim>\<open>offset + beg / val->line_blen * val->line_len + beg % val->line_blen\<close>: the quotient
  and the remainder are \<^verbatim>\<open>int64_t\<close>, the sum is \<^verbatim>\<open>uint64_t\<close>.
\<close>

definition seek_target :: "faidx1_t \<Rightarrow> uint64_t \<Rightarrow> hts_pos_t \<Rightarrow> (fault + 64 word)" where
  "seek_target val offset beg =
     (case (c_div beg (ucast (line_blen val)), c_mod beg (ucast (line_blen val))) of
        (Some q, Some r) \<Rightarrow> Inr (offset + q * ucast (line_len val) + r)
      | (_, _) \<Rightarrow> Inl DivByZero)"

text \<open>
  The specification's formula for the first byte of a range, over the integers:
  \<^verbatim>\<open>first_byte = base_offset + floor(begin / line_payload) * line_stride + (begin mod line_payload)\<close>.
\<close>

definition first_byte :: "int \<Rightarrow> int \<Rightarrow> int \<Rightarrow> int \<Rightarrow> int" where
  "first_byte base_offset beg line_payload line_stride =
     base_offset + (beg div line_payload) * line_stride + beg mod line_payload"

text \<open>
  The same offset over the natural numbers, as an index into the bytes of a file.
\<close>

definition byte_offset :: "nat \<Rightarrow> nat \<Rightarrow> nat \<Rightarrow> nat \<Rightarrow> nat" where
  "byte_offset base k payload stride = base + (k div payload) * stride + k mod payload"

text \<open>
  Lines 552-611, after a seek that succeeded: the allocation, line 559 and the reads.
\<close>

definition retrieve_body ::
  "'d bgzf_lib \<Rightarrow> allocator \<Rightarrow> 'd \<Rightarrow> faidx1_t \<Rightarrow> hts_pos_t \<Rightarrow> hts_pos_t \<Rightarrow> 'd fetched" where
  "retrieve_body lib malloc bgzf val beg end' =
     (let sz = end' - beg + ucast (line_len val) - ucast (line_blen val) + 1
      in case malloc sz of
           None \<Rightarrow> Some (Inr (None, - 1, bgzf))
         | Some buffer \<Rightarrow>
             (case c_mod beg (ucast (line_blen val)) of
                None \<Rightarrow> Some (Inl DivByZero)
              | Some r \<Rightarrow>
                  if end' - beg \<le>s ucast (line_blen val) - r
                  then retrieve_one_line lib bgzf buffer (unat sz) (end' - beg)
                  else retrieve_lines lib val bgzf buffer (unat sz) r (end' - beg)))"

definition fai_retrieve ::
  "'d bgzf_lib \<Rightarrow> allocator \<Rightarrow> 'd \<Rightarrow> faidx1_t \<Rightarrow> uint64_t \<Rightarrow> hts_pos_t \<Rightarrow> hts_pos_t
     \<Rightarrow> 'd fetched" where
  "fai_retrieve lib malloc bgzf val offset beg end' =
     (if SIZE_MAX - 2 \<le> unat (end' - beg) then Some (Inr (None, - 1, bgzf))
      else if line_blen val \<le> 0 then Some (Inr (None, - 1, bgzf))
      else
        (case seek_target val offset beg of
           Inl f \<Rightarrow> Some (Inl f)
         | Inr target \<Rightarrow>
             (case bgzf_useek lib bgzf target of (bgzf', ret) \<Rightarrow>
                if ret < 0 then Some (Inr (None, - 1, bgzf'))
                else retrieve_body lib malloc bgzf' val beg end')))"

section \<open>Readers and the store of metadata objects\<close>

text \<open>
  Metadata objects live in a store, from addresses to objects; a freed object is absent
  from it, and a \<^verbatim>\<open>faidx_meta_t *\<close> is an address, or \<open>None\<close> for the null pointer.
\<close>

type_synonym addr = nat
type_synonym heap = "addr \<rightharpoonup> faidx_meta_t"

text \<open>
  htslib's \<^verbatim>\<open>BGZF\<close> handle: the field \<^verbatim>\<open>idx\<close>, which faigz.h reads and writes, and
  the rest of the decoder, of any type \<open>'s\<close>.
\<close>

record 's BGZF =
  idx :: "bgzidx_t option"
  strm :: 's

text \<open>
  \<^verbatim>\<open>faidx_reader_t\<close> (lines 54-57). A reader that \<^verbatim>\<open>faidx_reader_create\<close> has returned
  holds a non-null \<^verbatim>\<open>meta\<close> and a non-null \<^verbatim>\<open>bgzf\<close>.
\<close>

record 's faidx_reader_t =
  meta :: addr
  bgzf :: "'s BGZF"

text \<open>
  \<^verbatim>\<open>faidx_adjust_position\<close> (lines 498-526). \<open>None\<close> stands for the return value 1
  (the name is not in the table, \<^verbatim>\<open>*len = -2\<close>); otherwise the value is the descriptor
  copied to \<^verbatim>\<open>val_out\<close> with the new \<^verbatim>\<open>*p_beg_i\<close> and \<^verbatim>\<open>*p_end_i\<close>. The comparisons
  with zero and between the two positions are signed; those with \<^verbatim>\<open>val->len\<close>, a
  \<^verbatim>\<open>uint64_t\<close>, are unsigned, and \<^verbatim>\<open>val->len - end_adjust\<close> is computed in \<^verbatim>\<open>uint64_t\<close>.
\<close>

definition faidx_adjust_position ::
  "faidx_meta_t \<Rightarrow> int \<Rightarrow> string \<Rightarrow> hts_pos_t \<Rightarrow> hts_pos_t
     \<Rightarrow> (faidx1_t \<times> hts_pos_t \<times> hts_pos_t) option" where
  "faidx_adjust_position mt end_adjust c_name p_beg_i p_end_i =
     (case hash mt c_name of
        None \<Rightarrow> None
      | Some val \<Rightarrow>
          (let beg1 = (if p_end_i <s p_beg_i then p_end_i else p_beg_i);
               beg2 = (if beg1 <s 0 then 0 else if len val \<le> beg1 then len val else beg1);
               end2 = (if p_end_i <s 0 then 0
                       else if len val \<le> p_end_i then len val - word_of_int end_adjust
                       else p_end_i)
           in Some (val, beg2, end2)))"

text \<open>\<^verbatim>\<open>faidx_reader_fetch_seq\<close> (lines 615-626).\<close>

definition faidx_reader_fetch_seq ::
  "'s BGZF bgzf_lib \<Rightarrow> allocator \<Rightarrow> heap \<Rightarrow> 's faidx_reader_t \<Rightarrow> string
     \<Rightarrow> hts_pos_t \<Rightarrow> hts_pos_t \<Rightarrow> 's BGZF fetched" where
  "faidx_reader_fetch_seq lib malloc h reader c_name p_beg_i p_end_i =
     (case h (meta reader) of
        None \<Rightarrow> Some (Inl UseAfterFree)
      | Some mt \<Rightarrow>
          (case faidx_adjust_position mt 1 c_name p_beg_i p_end_i of
             None \<Rightarrow> Some (Inr (None, - 2, bgzf reader))
           | Some (val, b, e) \<Rightarrow>
               fai_retrieve lib malloc (bgzf reader) val (seq_offset val) b (e + 1)))"

text \<open>\<^verbatim>\<open>faidx_reader_fetch_qual\<close> (lines 629-645).\<close>

definition faidx_reader_fetch_qual ::
  "'s BGZF bgzf_lib \<Rightarrow> allocator \<Rightarrow> heap \<Rightarrow> 's faidx_reader_t \<Rightarrow> string
     \<Rightarrow> hts_pos_t \<Rightarrow> hts_pos_t \<Rightarrow> 's BGZF fetched" where
  "faidx_reader_fetch_qual lib malloc h reader c_name p_beg_i p_end_i =
     (case h (meta reader) of
        None \<Rightarrow> Some (Inl UseAfterFree)
      | Some mt \<Rightarrow>
          if format mt \<noteq> FAI_FASTQ then Some (Inr (None, - 2, bgzf reader))
          else
            (case faidx_adjust_position mt 1 c_name p_beg_i p_end_i of
               None \<Rightarrow> Some (Inr (None, - 2, bgzf reader))
             | Some (val, b, e) \<Rightarrow>
                 fai_retrieve lib malloc (bgzf reader) val (qual_offset val) b (e + 1)))"

section \<open>Lifetime of the metadata\<close>

text \<open>
  \<^verbatim>\<open>faidx_meta_ref\<close> (lines 380-388): the pointer it returns and the new store. The
  \<^verbatim>\<open>++\<close> of line 384 is the addition of 32-bit words.
\<close>

definition faidx_meta_ref :: "addr option \<Rightarrow> heap \<Rightarrow> fault + addr option \<times> heap" where
  "faidx_meta_ref p h =
     (case p of
        None \<Rightarrow> Inr (None, h)
      | Some a \<Rightarrow>
          (case h a of
             None \<Rightarrow> Inl UseAfterFree
           | Some mt \<Rightarrow> Inr (Some a, h(a \<mapsto> mt\<lparr>ref_count := ref_count mt + 1\<rparr>))))"

text \<open>
  \<^verbatim>\<open>faidx_meta_destroy\<close> (lines 391-424). The \<^verbatim>\<open>--\<close> of line 395 is the subtraction of
  32-bit words and the test of line 396 is signed. The table, the names, the block-offset
  table and the paths are parts of the object, and go with it when it leaves the store.
\<close>

definition faidx_meta_destroy :: "addr option \<Rightarrow> heap \<Rightarrow> fault + heap" where
  "faidx_meta_destroy p h =
     (case p of
        None \<Rightarrow> Inr h
      | Some a \<Rightarrow>
          (case h a of
             None \<Rightarrow> Inl UseAfterFree
           | Some mt \<Rightarrow>
               (let mt' = mt\<lparr>ref_count := ref_count mt - 1\<rparr>;
                    should_free = (ref_count mt' \<le>s 0)
                in if should_free then Inr (h(a := None)) else Inr (h(a \<mapsto> mt')))))"

text \<open>
  \<^verbatim>\<open>bgzf_open_shared_idx\<close> (lines 255-269). htslib's \<^verbatim>\<open>bgzf_open\<close> is a parameter:
  from the path to the handle it opens (the mode is always \<^verbatim>\<open>"rb"\<close>), or \<open>None\<close>.
\<close>

definition bgzf_open_shared_idx ::
  "(string \<Rightarrow> 's BGZF option) \<Rightarrow> string \<Rightarrow> bgzidx_t option \<Rightarrow> 's BGZF option" where
  "bgzf_open_shared_idx bgzf_open path idx' =
     (case bgzf_open path of
        None \<Rightarrow> None
      | Some fp \<Rightarrow> Some (fp\<lparr>idx := idx'\<rparr>))"

text \<open>
  \<^verbatim>\<open>faidx_reader_create\<close> (lines 427-450). \<open>calloc_ok\<close> says whether the allocation
  of the reader succeeds. The result is the reader, or \<open>None\<close> for null, and the store.
\<close>

definition faidx_reader_create ::
  "bool \<Rightarrow> (string \<Rightarrow> 's BGZF option) \<Rightarrow> addr option \<Rightarrow> heap
     \<Rightarrow> fault + 's faidx_reader_t option \<times> heap" where
  "faidx_reader_create calloc_ok bgzf_open p h =
     (case p of
        None \<Rightarrow> Inr (None, h)
      | Some a \<Rightarrow>
          if \<not> calloc_ok then Inr (None, h)
          else
            (case faidx_meta_ref (Some a) h of
               Inl f \<Rightarrow> Inl f
             | Inr (p', h') \<Rightarrow>
                 (case h' a of
                    None \<Rightarrow> Inl UseAfterFree
                  | Some mt \<Rightarrow>
                      (case (if is_bgzf mt
                             then bgzf_open_shared_idx bgzf_open (fasta_path mt) (bgzf_idx mt)
                             else bgzf_open (fasta_path mt)) of
                         None \<Rightarrow>
                           (case faidx_meta_destroy p' h' of
                              Inl f \<Rightarrow> Inl f
                            | Inr h'' \<Rightarrow> Inr (None, h''))
                       | Some fp \<Rightarrow> Inr (Some \<lparr> meta = a, bgzf = fp \<rparr>, h')))))"

text \<open>
  \<^verbatim>\<open>faidx_reader_destroy\<close> (lines 453-464): the handle is closed after its \<^verbatim>\<open>idx\<close> is
  set to null, which leaves the store as it is; then the reference is given back.
\<close>

definition faidx_reader_destroy :: "'s faidx_reader_t option \<Rightarrow> heap \<Rightarrow> fault + heap" where
  "faidx_reader_destroy reader h =
     (case reader of
        None \<Rightarrow> Inr h
      | Some r \<Rightarrow> faidx_meta_destroy (Some (meta r)) h)"

text \<open>
  A client of one metadata object at address \<open>a\<close>: it takes and gives back references,
  creates readers (each with the answers of \<^verbatim>\<open>calloc\<close> and \<^verbatim>\<open>bgzf_open\<close> to that call)
  and destroys the reader it created last, each reader once. Its state is the store and
  the readers it holds.
\<close>

datatype 's client_op =
  Ref | Unref | Create bool "'s BGZF option" | Destroy

fun client_step ::
  "addr \<Rightarrow> 's client_op \<Rightarrow> heap \<times> 's faidx_reader_t list
     \<Rightarrow> fault + heap \<times> 's faidx_reader_t list" where
  "client_step a Ref (h, rs) =
     (case faidx_meta_ref (Some a) h of Inl f \<Rightarrow> Inl f | Inr (p, h') \<Rightarrow> Inr (h', rs))"
| "client_step a Unref (h, rs) =
     (case faidx_meta_destroy (Some a) h of Inl f \<Rightarrow> Inl f | Inr h' \<Rightarrow> Inr (h', rs))"
| "client_step a (Create calloc_ok opened) (h, rs) =
     (case faidx_reader_create calloc_ok (\<lambda>path. opened) (Some a) h of
        Inl f \<Rightarrow> Inl f
      | Inr (None, h') \<Rightarrow> Inr (h', rs)
      | Inr (Some r, h') \<Rightarrow> Inr (h', r # rs))"
| "client_step a Destroy (h, rs) =
     (case rs of
        [] \<Rightarrow> Inr (h, rs)
      | r # rs' \<Rightarrow>
          (case faidx_reader_destroy (Some r) h of Inl f \<Rightarrow> Inl f | Inr h' \<Rightarrow> Inr (h', rs')))"

fun client_run ::
  "addr \<Rightarrow> 's client_op list \<Rightarrow> heap \<times> 's faidx_reader_t list
     \<Rightarrow> fault + heap \<times> 's faidx_reader_t list" where
  "client_run a [] st = Inr st"
| "client_run a (x # xs) st =
     (case client_step a x st of Inl f \<Rightarrow> Inl f | Inr st' \<Rightarrow> client_run a xs st')"

text \<open>
  The references taken less those given back by a run that starts with \<open>k\<close> readers:
  \<^verbatim>\<open>faidx_meta_ref\<close> and a \<^verbatim>\<open>faidx_reader_create\<close> that returns a reader take one,
  \<^verbatim>\<open>faidx_meta_destroy\<close> and the \<^verbatim>\<open>faidx_reader_destroy\<close> of a reader give one back.
\<close>

fun balance :: "nat \<Rightarrow> 's client_op list \<Rightarrow> int" where
  "balance k [] = 0"
| "balance k (Ref # xs) = balance k xs + 1"
| "balance k (Unref # xs) = balance k xs - 1"
| "balance k (Create calloc_ok opened # xs) =
     (if calloc_ok \<and> opened \<noteq> None then balance (Suc k) xs + 1 else balance k xs)"
| "balance k (Destroy # xs) =
     (case k of 0 \<Rightarrow> balance 0 xs | Suc k' \<Rightarrow> balance k' xs - 1)"

text \<open>
  The object that was loaded as \<open>m0\<close> is counted \<open>c\<close> times in the store, for a
  number \<open>c\<close> of references that a C \<^verbatim>\<open>int\<close> can hold: it is there with
  \<^verbatim>\<open>ref_count = c\<close> and its other fields as loaded, or \<open>c\<close> is zero and it is gone.
\<close>

definition counted :: "faidx_meta_t \<Rightarrow> addr \<Rightarrow> int \<Rightarrow> heap \<Rightarrow> bool" where
  "counted m0 a c h \<longleftrightarrow>
     0 \<le> c \<and> c \<le> INT_MAX
     \<and> h a = (if c = 0 then None else Some (m0\<lparr>ref_count := word_of_int c\<rparr>))"

section \<open>Loading the metadata\<close>

text \<open>
  htslib's \<^verbatim>\<open>faidx_t\<close>, as far as \<^verbatim>\<open>faidx_meta_load\<close> reads it: \<^verbatim>\<open>n\<close>, \<^verbatim>\<open>m\<close>,
  the array \<^verbatim>\<open>name\<close>, the table \<^verbatim>\<open>hash\<close>, \<^verbatim>\<open>format\<close>, and whether \<^verbatim>\<open>bgzf\<close> is there
  and compressed.
\<close>

record faidx_t =
  fai_n :: int
  fai_m :: int
  fai_name :: "string list"
  fai_hash :: "string \<rightharpoonup> faidx1_t"
  fai_format :: fai_format_options
  fai_compressed :: bool

text \<open>
  What the platform and htslib answer during one call of \<^verbatim>\<open>faidx_meta_load\<close>: whether
  each \<^verbatim>\<open>ksprintf\<close>, \<^verbatim>\<open>calloc\<close>, \<^verbatim>\<open>malloc\<close>, \<^verbatim>\<open>kstrdup\<close>, \<^verbatim>\<open>kh_init\<close> and
  \<^verbatim>\<open>pthread_mutex_init\<close> succeeds (\<^verbatim>\<open>kh_put\<close> is taken to succeed), what
  \<^verbatim>\<open>fai_load3_format\<close> returns for its five arguments, and the \<^verbatim>\<open>.gzi\<close> file: \<open>None\<close>
  when \<^verbatim>\<open>hopen\<close> cannot open it, otherwise the 64-bit values that successive calls of
  \<^verbatim>\<open>hread_uint64\<close> deliver before they fail.
\<close>

record load_env =
  ksprintf_fai_ok :: bool
  ksprintf_gzi_ok :: bool
  fai_load3_format :: "string \<Rightarrow> string \<Rightarrow> string \<Rightarrow> int \<Rightarrow> fai_format_options \<Rightarrow> faidx_t option"
  calloc_meta_ok :: bool
  mutex_init_ok :: bool
  malloc_name_ok :: bool
  kstrdup_name_ok :: "nat \<Rightarrow> bool"
  kh_init_ok :: bool
  kstrdup_fasta_ok :: bool
  kstrdup_fai_ok :: bool
  kstrdup_gzi_ok :: bool
  gzi :: "uint64_t list option"
  calloc_idx_ok :: bool
  malloc_offs_ok :: "64 word \<Rightarrow> bool"

text \<open>The loop of lines 237-240: \<open>k\<close> pairs \<^verbatim>\<open>(caddr, uaddr)\<close>, or \<open>None\<close> at a failed read.\<close>

fun read_offs :: "nat \<Rightarrow> uint64_t list \<Rightarrow> (uint64_t \<times> uint64_t) list option" where
  "read_offs 0 ws = Some []"
| "read_offs (Suc k) (c # u # ws) =
     (case read_offs k ws of None \<Rightarrow> None | Some ps \<Rightarrow> Some ((c, u) # ps))"
| "read_offs (Suc k) ws = None"

text \<open>
  \<^verbatim>\<open>bgzf_index_load_direct\<close> (lines 215-252). \<^verbatim>\<open>noffs\<close> and \<^verbatim>\<open>moffs\<close> are \<^verbatim>\<open>int\<close>:
  the \<^verbatim>\<open>uint64_t\<close> \<^verbatim>\<open>x + 1\<close> is cut to 32 bits. The entries are 16 bytes each. The store
  to \<^verbatim>\<open>offs[0]\<close> is outside a block of no entries.
\<close>

definition bgzf_index_load_direct :: "load_env \<Rightarrow> fault + bgzidx_t option" where
  "bgzf_index_load_direct env =
     (case gzi env of
        None \<Rightarrow> Inr None
      | Some ws \<Rightarrow>
          if \<not> calloc_idx_ok env then Inr None
          else
            (case ws of
               [] \<Rightarrow> Inr None
             | x # ws' \<Rightarrow>
                 (let k = sint (ucast (x + 1) :: 32 word)
                  in if \<not> malloc_offs_ok env (word_of_int k * 16) then Inr None
                     else if k = 0 then Inl BufferOverflow
                     else
                       (case read_offs (nat (k - 1)) ws' of
                          None \<Rightarrow> Inr None
                        | Some ps \<Rightarrow> Inr (Some \<lparr> noffs = k, moffs = k, offs = (0, 0) # ps \<rparr>)))))"

text \<open>
  The loop of lines 313-316 from index \<open>i\<close> on, \<open>k\<close> names to go, into an array of
  \<open>cap\<close> pointers: \<open>Inr None\<close> when a \<^verbatim>\<open>kstrdup\<close> fails.
\<close>

fun copy_names ::
  "(nat \<Rightarrow> bool) \<Rightarrow> string list \<Rightarrow> int \<Rightarrow> nat \<Rightarrow> nat \<Rightarrow> fault + string list option" where
  "copy_names ok src cap i 0 = Inr (Some [])"
| "copy_names ok src cap i (Suc k) =
     (if length src \<le> i \<or> cap \<le> int i then Inl BufferOverflow
      else if \<not> ok i then Inr None
      else
        (case copy_names ok src cap (Suc i) k of
           Inl f \<Rightarrow> Inl f
         | Inr None \<Rightarrow> Inr None
         | Inr (Some ns) \<Rightarrow> Inr (Some (src ! i # ns))))"

text \<open>
  The loop of lines 322-329: \<^verbatim>\<open>kh_put\<close> leaves a key that is already in the table as
  it is and reports it as not absent; an absent key gets the value that htslib's table
  has for it, read at \<^verbatim>\<open>kh_end\<close> when the name is not there.
\<close>

fun put_names ::
  "(string \<rightharpoonup> faidx1_t) \<Rightarrow> string list \<Rightarrow> (string \<rightharpoonup> faidx1_t) \<Rightarrow> fault + (string \<rightharpoonup> faidx1_t)" where
  "put_names src [] h = Inr h"
| "put_names src (x # xs) h =
     (case h x of
        Some v \<Rightarrow> put_names src xs h
      | None \<Rightarrow>
          (case src x of
             None \<Rightarrow> Inl BufferOverflow
           | Some v \<Rightarrow> put_names src xs (h(x \<mapsto> v))))"

text \<open>
  \<^verbatim>\<open>faidx_meta_load\<close> (lines 272-377). The result is the new object, or \<open>None\<close> for
  null; on the way to \<^verbatim>\<open>fail\<close> everything allocated so far is freed. Line 335 goes to
  \<^verbatim>\<open>fail\<close> unless all three paths were copied.
\<close>

definition faidx_meta_load ::
  "load_env \<Rightarrow> string option \<Rightarrow> fai_format_options \<Rightarrow> int \<Rightarrow> fault + faidx_meta_t option" where
  "faidx_meta_load env filename fmt flags =
     (case filename of
        None \<Rightarrow> Inr None
      | Some fn \<Rightarrow>
          if \<not> ksprintf_fai_ok env then Inr None
          else if \<not> ksprintf_gzi_ok env then Inr None
          else
            (let fnfai = fn @ ''.fai''; fngzi = fn @ ''.gzi''
             in case fai_load3_format env fn fnfai fngzi flags fmt of
                  None \<Rightarrow> Inr None
                | Some fai \<Rightarrow>
                    if \<not> calloc_meta_ok env then Inr None
                    else if \<not> mutex_init_ok env then Inr None
                    else if \<not> malloc_name_ok env then Inr None
                    else
                      (case copy_names (kstrdup_name_ok env) (fai_name fai) (fai_m fai) 0
                              (nat (fai_n fai)) of
                         Inl f \<Rightarrow> Inl f
                       | Inr None \<Rightarrow> Inr None
                       | Inr (Some names) \<Rightarrow>
                           if \<not> kh_init_ok env then Inr None
                           else
                             (case put_names (fai_hash fai) names Map.empty of
                                Inl f \<Rightarrow> Inl f
                              | Inr tbl \<Rightarrow>
                                  if kstrdup_fasta_ok env \<and> kstrdup_fai_ok env
                                       \<and> kstrdup_gzi_ok env
                                  then
                                    (let mt = \<lparr> n = fai_n fai, m = fai_m fai, name = names,
                                                hash = tbl, format = fai_format fai,
                                                fasta_path = fn, fai_path = fnfai,
                                                gzi_path = fngzi, bgzf_idx = None,
                                                ref_count = 1,
                                                is_bgzf = fai_compressed fai \<rparr>
                                     in if is_bgzf mt \<and> gzi env \<noteq> None then
                                          (case bgzf_index_load_direct env of
                                             Inl f \<Rightarrow> Inl f
                                           | Inr loaded \<Rightarrow> Inr (Some (mt\<lparr>bgzf_idx := loaded\<rparr>)))
                                        else Inr (Some mt))
                                  else Inr None))))"

section \<open>A source file to run the code on\<close>

text \<open>
  A decoder over an uncompressed source held in memory: the state is the contents and
  the position. A seek to a negative offset fails, any other sets the position; a read
  gives the bytes from the position on, up to the requested length and to the end.
\<close>

record mem_file =
  contents :: "byte list"
  position :: nat

definition mem_lib :: "mem_file BGZF bgzf_lib" where
  "mem_lib =
     \<lparr> bgzf_useek = (\<lambda>fp off.
          if off <s 0 then (fp, - 1)
          else (fp\<lparr>strm := (strm fp)\<lparr>position := unat off\<rparr>\<rparr>, 0)),
       bgzf_read = (\<lambda>fp k.
          let bs = take (unat k) (drop (position (strm fp)) (contents (strm fp)))
          in (fp\<lparr>strm := (strm fp)\<lparr>position := position (strm fp) + length bs\<rparr>\<rparr>, RdOk bs)) \<rparr>"

text \<open>An allocator that never fails and hands out zeroed blocks.\<close>

definition mem_alloc :: allocator where
  "mem_alloc = (\<lambda>size. Some (\<lambda>i. 0))"

text \<open>
  The source \<^verbatim>\<open>t.fa\<close>: the header \<^verbatim>\<open>>s\<close> and the ten bases \<^verbatim>\<open>ACGTACGTAC\<close>
  wrapped at four per line, so \<^verbatim>\<open>line_blen = 4\<close>, \<^verbatim>\<open>line_len = 5\<close> and the payload
  starts at offset 3.
\<close>

definition t_fa :: "byte list" where
  "t_fa = [62, 115, 10,  65, 67, 71, 84, 10,  65, 67, 71, 84, 10,  65, 67, 10]"

definition t_val :: faidx1_t where
  "t_val = \<lparr> id1 = 0, line_len = 5, line_blen = 4, len = 10, seq_offset = 3, qual_offset = 0 \<rparr>"

definition t_meta :: faidx_meta_t where
  "t_meta = \<lparr> n = 1, m = 1, name = [''s''], hash = [''s'' \<mapsto> t_val], format = FAI_FASTA,
              fasta_path = ''t.fa'', fai_path = ''t.fa.fai'', gzi_path = ''t.fa.gzi'',
              bgzf_idx = None, ref_count = 2, is_bgzf = False \<rparr>"

definition t_heap :: heap where
  "t_heap = [0 \<mapsto> t_meta]"

definition t_bgzf :: "mem_file BGZF" where
  "t_bgzf = \<lparr> idx = None, strm = \<lparr> contents = t_fa, position = 0 \<rparr> \<rparr>"

definition t_reader :: "mem_file faidx_reader_t" where
  "t_reader = \<lparr> meta = 0, bgzf = t_bgzf \<rparr>"

text \<open>
  What htslib and the platform answer when \<^verbatim>\<open>t.fa\<close> is loaded: the index of its one
  sequence, no \<^verbatim>\<open>.gzi\<close> file, and no failure.
\<close>

definition t_fai :: faidx_t where
  "t_fai = \<lparr> fai_n = 1, fai_m = 1, fai_name = [''s''], fai_hash = [''s'' \<mapsto> t_val],
             fai_format = FAI_FASTA, fai_compressed = False \<rparr>"

definition t_env :: load_env where
  "t_env = \<lparr> ksprintf_fai_ok = True, ksprintf_gzi_ok = True,
             fai_load3_format = (\<lambda>fn fnfai fngzi flags fmt. Some t_fai),
             calloc_meta_ok = True, mutex_init_ok = True, malloc_name_ok = True,
             kstrdup_name_ok = (\<lambda>i. True), kh_init_ok = True,
             kstrdup_fasta_ok = True, kstrdup_fai_ok = True, kstrdup_gzi_ok = True,
             gzi = None, calloc_idx_ok = True, malloc_offs_ok = (\<lambda>sz. True) \<rparr>"

text \<open>
  The answers for a BGZF-compressed source whose \<^verbatim>\<open>.gzi\<close> file holds one entry, when
  the \<^verbatim>\<open>malloc\<close> of line 232 fails; and for one whose \<^verbatim>\<open>.gzi\<close> file announces one
  entry and cannot be read beyond the count.
\<close>

definition gz_env :: load_env where
  "gz_env = t_env\<lparr> fai_load3_format :=
               (\<lambda>fn fnfai fngzi flags fmt. Some (t_fai\<lparr> fai_compressed := True \<rparr>)),
             gzi := Some [1, 100, 200], malloc_offs_ok := (\<lambda>sz. False) \<rparr>"

definition gz_short_env :: load_env where
  "gz_short_env = t_env\<lparr> fai_load3_format :=
               (\<lambda>fn fnfai fngzi flags fmt. Some (t_fai\<lparr> fai_compressed := True \<rparr>)),
             gzi := Some [1] \<rparr>"

section \<open>Facts about the machine types\<close>

lemma uint_ucast_32_64: "uint (ucast (w :: 32 word) :: 64 word) = uint w"
  by (simp add: uint_up_ucast is_up)

lemma unat_ucast_32_64: "unat (ucast (w :: 32 word) :: 64 word) = unat w"
  by (metis uint_ucast_32_64 unat_eq_nat_uint)

lemma ucast_32_64_eq_0: "(ucast (w :: 32 word) :: 64 word) = 0 \<longleftrightarrow> w = 0"
  using uint_ucast_32_64 [of w] by (metis uint_0_iff)

lemma sint_ucast_32_64: "sint (ucast (w :: 32 word) :: 64 word) = uint w"
proof -
  have "uint w < 2 ^ 32" using uint_lt2p [of w] by simp
  then have "uint w < 2 ^ 63" by simp
  moreover have "- (2 ^ 63) \<le> uint w" by (simp add: order_trans [of _ 0])
  ultimately have "signed_take_bit 63 (uint w) = uint w"
    by (intro signed_take_bit_int_eq_self) simp_all
  then show ?thesis
    by (simp add: sint_uint uint_ucast_32_64)
qed

lemma uint_sint_64:
  "uint (x :: 64 word) = (if 0 \<le> sint x then sint x else sint x + 2 ^ 64)"
proof -
  have m: "uint x = sint x mod 2 ^ 64"
    by (simp add: uint_sint take_bit_eq_mod)
  have lo: "- (2 ^ 63) \<le> sint x" using sint_ge [of x] by simp
  have hi: "sint x < 2 ^ 63" using sint_lt [of x] by simp
  show ?thesis
  proof (cases "0 \<le> sint x")
    case True
    with hi have "sint x mod 2 ^ 64 = sint x" by (intro mod_pos_pos_trivial) simp_all
    with m True show ?thesis by simp
  next
    case False
    with lo have "(sint x + 2 ^ 64) mod 2 ^ 64 = sint x + 2 ^ 64"
      by (intro mod_pos_pos_trivial) simp_all
    then have "sint x mod 2 ^ 64 = sint x + 2 ^ 64" by simp
    with m False show ?thesis by simp
  qed
qed

lemma uint_diff_64:
  "uint (x - y :: 64 word) = (uint x - uint y) mod 2 ^ 64"
  by (simp add: uint_word_ariths)

lemma unat_nat_uint_64: "unat (x :: 64 word) = nat (uint x)"
  by (rule unat_eq_nat_uint)

lemma sint_word_of_int_64:
  "- (2 ^ 63) \<le> k \<Longrightarrow> k < 2 ^ 63 \<Longrightarrow> sint (word_of_int k :: 64 word) = k"
  by (simp add: sint_sbintrunc' signed_take_bit_int_eq_self)

lemma unat_diff_sint_64:
  "unat (e - b :: 64 word) = nat ((sint e - sint b) mod 2 ^ 64)"
proof -
  have "uint (e - b) = (uint e - uint b) mod 2 ^ 64" by (rule uint_diff_64)
  also have "\<dots> = (sint e mod 2 ^ 64 - sint b mod 2 ^ 64) mod 2 ^ 64"
    by (simp add: uint_sint take_bit_eq_mod)
  also have "\<dots> = (sint e - sint b) mod 2 ^ 64" by (rule mod_diff_eq)
  finally show ?thesis by (simp add: unat_nat_uint_64)
qed

lemma mod64_trivial: "0 \<le> k \<Longrightarrow> k \<le> 9223372036854775808 \<Longrightarrow> (k::int) mod 2 ^ 64 = k"
  by (intro mod_pos_pos_trivial) simp_all

lemma sint_of_nat_64: "k < 2 ^ 63 \<Longrightarrow> sint (of_nat k :: 64 word) = int k"
proof -
  assume "k < 2 ^ 63"
  then have "int k < 2 ^ 63" by (metis of_nat_less_iff of_nat_numeral of_nat_power)
  then have "sint (word_of_int (int k) :: 64 word) = int k"
    by (intro sint_word_of_int_64) simp_all
  then show ?thesis by simp
qed

lemma unat_of_nat_64: "k < 2 ^ 63 \<Longrightarrow> unat (of_nat k :: 64 word) = k"
proof -
  assume a: "k < 2 ^ 63"
  have "(2 :: nat) ^ 63 \<le> 2 ^ 64" by simp
  with a have "k < 2 ^ 64" by (rule less_le_trans)
  then show ?thesis by (simp add: unat_of_nat take_bit_nat_eq_self)
qed

lemma unat_32_bound: "unat (w :: 32 word) < 2 ^ 32"
  using unsigned_less [of w, where 'a = nat] by simp

lemma ucast_of_nat_32_64: "(ucast (w :: 32 word) :: 64 word) = of_nat (unat w)"
proof -
  have "unat w < 2 ^ 63" using unat_32_bound [of w] by simp
  then show ?thesis
    by (simp add: word_unat_eq_iff unat_ucast_32_64 unat_of_nat_64)
qed

lemma unat_of_nat_64_full: "k < 18446744073709551616 \<Longrightarrow> unat (of_nat k :: 64 word) = k"
  by (simp add: unat_of_nat take_bit_nat_eq_self)

lemma of_nat_nat_sint_64: "0 \<le> sint (x :: 64 word) \<Longrightarrow> of_nat (nat (sint x)) = x"
  by (simp add: of_nat_nat)

section \<open>Running the code on the source file\<close>

lemmas fixture_defs = t_reader_def t_bgzf_def t_heap_def t_meta_def t_val_def t_fa_def mem_lib_def mem_alloc_def
lemmas fetch_defs = faidx_reader_fetch_seq_def faidx_adjust_position_def fai_retrieve_def retrieve_body_def seek_target_def c_div_def c_mod_def
  retrieve_one_line_def retrieve_lines_def retrieve_last_line_def SIZE_MAX_def c_string_def write_at_def

section \<open>Faults of the retrieval\<close>

lemma read_lines_fault:
  assumes "read_lines lib val cap d buffer s remaining = Some y"
  shows "y \<noteq> Inl DivByZero"
  by (rule read_lines.raw_induct [where P = "\<lambda>_ _ _ _ _ _ _ y. y \<noteq> Inl DivByZero", OF _ assms])
    (auto split: if_splits prod.splits)

lemma retrieve_one_line_fault:
  "retrieve_one_line lib d buffer cap remaining \<noteq> Some (Inl DivByZero)"
  by (auto simp: retrieve_one_line_def split: prod.splits)

lemma retrieve_last_line_fault:
  "retrieve_last_line lib cap c d buffer s remaining \<noteq> Some (Inl DivByZero)"
  by (auto simp: retrieve_last_line_def split: prod.splits)

lemma retrieve_lines_fault:
  "retrieve_lines lib val d buffer cap r remaining \<noteq> Some (Inl DivByZero)"
proof (cases "bgzf_read lib d (ucast (line_len val) - r)")
  case (Pair d' r1)
  show ?thesis
  proof (cases "read_lines lib val cap d' (write_at buffer 0 (rd_bytes r1))
                  (unat (ucast (line_blen val) - r)) (remaining - (ucast (line_blen val) - r))")
    case None
    with Pair show ?thesis by (simp add: retrieve_lines_def Let_def)
  next
    case (Some y)
    from read_lines_fault [OF Some] Pair Some show ?thesis
      by (cases y) (auto simp: retrieve_lines_def Let_def retrieve_last_line_fault
          split: option.splits)
  qed
qed

lemma seek_target_Inr:
  "line_blen val \<noteq> 0 \<Longrightarrow> \<exists>t. seek_target val offset b = Inr t"
  by (simp add: seek_target_def c_div_def c_mod_def ucast_32_64_eq_0)

lemma retrieve_body_fault:
  "line_blen val \<noteq> 0 \<Longrightarrow> retrieve_body lib malloc d val b e \<noteq> Some (Inl DivByZero)"
  by (auto simp: retrieve_body_def Let_def c_mod_def ucast_32_64_eq_0
      retrieve_one_line_fault retrieve_lines_fault split: option.splits)

section \<open>The guards of the retrieval\<close>

text \<open>
  Claim C9, amended. \<^verbatim>\<open>fai_retrieve\<close> refuses a descriptor with \<^verbatim>\<open>line_blen = 0\<close>, and
  a range whose byte count \<^verbatim>\<open>end - beg\<close>, taken modulo \<open>2 ^ 64\<close> as the 64-bit size
  type holds it, is at least \<^verbatim>\<open>SIZE_MAX - 2\<close>, which is \<open>2 ^ 64 - 3\<close>: a difference
  of \<open>- 1\<close>, \<open>- 2\<close> or \<open>- 3\<close>, or one of \<open>2 ^ 64 - 3\<close> or more. It then returns
  null with \<^verbatim>\<open>*len = -1\<close> and hands the decoder back as it was, whatever the decoder
  and the allocator would do, so before any division, seek or read. On no input at all
  does it divide by zero.
\<close>

theorem fai_retrieve_refuses:
  "(line_blen val = 0 \<or> 2 ^ 64 - 3 \<le> (sint e - sint b) mod 2 ^ 64 \<longrightarrow>
      fai_retrieve lib malloc d val offset b e = Some (Inr (None, - 1, d)))
   \<and> fai_retrieve lib malloc d val offset b e \<noteq> Some (Inl DivByZero)"
proof (cases "line_blen val = 0 \<or> SIZE_MAX - 2 \<le> unat (e - b)")
  case True
  then show ?thesis by (auto simp: fai_retrieve_def)
next
  case False
  then have lp: "line_blen val \<noteq> 0" by simp
  have "(sint e - sint b) mod 2 ^ 64 < 2 ^ 64 - 3"
  proof -
    have "0 \<le> (sint e - sint b) mod 2 ^ 64" by simp
    moreover have "unat (e - b) < SIZE_MAX - 2" using False by simp
    moreover have "SIZE_MAX - 2 = 18446744073709551613" by (simp add: SIZE_MAX_def)
    ultimately show ?thesis unfolding unat_diff_sint_64 by simp
  qed
  then have ng: "\<not> (line_blen val = 0 \<or> 2 ^ 64 - 3 \<le> (sint e - sint b) mod 2 ^ 64)"
    using lp by simp
  obtain t where t: "seek_target val offset b = Inr t"
    using seek_target_Inr [OF lp] by blast
  have "fai_retrieve lib malloc d val offset b e \<noteq> Some (Inl DivByZero)"
  proof (cases "bgzf_useek lib d t")
    case (Pair d' ret)
    show ?thesis
      using False t Pair retrieve_body_fault [OF lp, of lib malloc d' b e]
      by (simp add: fai_retrieve_def)
  qed
  with ng show ?thesis by blast
qed

theorem fai_retrieve_refuses_witness:
  "line_blen (t_val\<lparr>line_blen := 0\<rparr>) = 0
   \<and> fai_retrieve mem_lib mem_alloc t_bgzf (t_val\<lparr>line_blen := 0\<rparr>) 3 0 4 = Some (Inr (None, - 1, t_bgzf))
   \<and> (sint (0 :: 64 word) - sint (3 :: 64 word)) mod 2 ^ 64 = 2 ^ 64 - 3
   \<and> fai_retrieve mem_lib mem_alloc t_bgzf t_val 3 3 0 = Some (Inr (None, - 1, t_bgzf))
   \<and> fai_retrieve mem_lib mem_alloc t_bgzf t_val 3 0 4 \<noteq> Some (Inl DivByZero)"
  using fai_retrieve_refuses [of "t_val\<lparr>line_blen := 0\<rparr>" 4 0 mem_lib mem_alloc t_bgzf 3]
    fai_retrieve_refuses [of t_val 0 3 mem_lib mem_alloc t_bgzf 3]
    fai_retrieve_refuses [of t_val 4 0 mem_lib mem_alloc t_bgzf 3]
  by simp

text \<open>
  The claim as it stands fails for a difference of \<open>- 4\<close>, which no size type holds
  either: the first guard lets it pass. With begin 0 and end \<open>- 4\<close> on a descriptor of
  \<^verbatim>\<open>line_len = 100\<close> the call seeks to offset 3, allocates 93 bytes, asks the decoder
  for \<open>2 ^ 64 - 4\<close> bytes, and returns the buffer it got with \<^verbatim>\<open>*len = -4\<close>.
\<close>

theorem fai_retrieve_refuses_counterexample:
  "sint (- 4 :: 64 word) - sint (0 :: 64 word) = - 4
   \<and> fai_retrieve mem_lib mem_alloc t_bgzf (t_val\<lparr>line_len := 100\<rparr>) 3 0 (- 4) =
       Some (Inr (Some [65, 67, 71, 84, 10, 65, 67, 71, 84, 10, 65, 67, 10], - 4,
                  t_bgzf\<lparr>strm := \<lparr>contents = t_fa, position = 16\<rparr>\<rparr>))"
  by (simp add: fixture_defs fetch_defs Let_def signed_divide_int_def signed_modulo_int_def
        word_sle_eq word_sless_alt word_le_nat_alt upt_rec)

section \<open>Quality strings\<close>

text \<open>
  Claim C8. On a reader whose metadata has the format \<^verbatim>\<open>FAI_FASTA\<close>,
  \<^verbatim>\<open>faidx_reader_fetch_qual\<close> returns null and leaves \<^verbatim>\<open>-2\<close> in \<^verbatim>\<open>*len\<close>, for every
  name and every pair of coordinates; the decoder it hands back is the reader's own,
  whatever the decoder library would do, so nothing was read.
\<close>

theorem fetch_qual_not_fastq:
  assumes "h (meta reader) = Some mt" and "format mt = FAI_FASTA"
  shows "faidx_reader_fetch_qual lib malloc h reader c_name p_beg_i p_end_i
           = Some (Inr (None, - 2, bgzf reader))"
  using assms by (simp add: faidx_reader_fetch_qual_def)

theorem fetch_qual_not_fastq_witness:
  "t_heap (meta t_reader) = Some t_meta \<and> format t_meta = FAI_FASTA
   \<and> faidx_reader_fetch_qual mem_lib mem_alloc t_heap t_reader ''s'' 0 9
         = Some (Inr (None, - 2, t_bgzf))"
  using fetch_qual_not_fastq [of t_heap t_reader t_meta mem_lib mem_alloc "''s''" 0 9]
  by (simp add: t_heap_def t_reader_def t_meta_def)

section \<open>The offset of the seek\<close>

lemma sdiv_nonneg: "0 \<le> (k::int) \<Longrightarrow> 0 < l \<Longrightarrow> k sdiv l = k div l"
  by (cases "k = 0") (simp_all add: signed_divide_int_def)

lemma smod_nonneg: "0 \<le> (k::int) \<Longrightarrow> 0 < l \<Longrightarrow> k smod l = k mod l"
  by (cases "k = 0") (simp_all add: signed_modulo_int_def)

lemma seek_target_nonneg:
  assumes "line_blen val \<noteq> 0" and "0 \<le> sint b"
  shows "seek_target val offset b =
           Inr (word_of_int (first_byte (uint offset) (sint b) (uint (line_blen val))
                               (uint (line_len val))))"
proof -
  have pos: "0 < uint (line_blen val)"
    using assms(1) uint_ge_0 [of "line_blen val"] uint_0_iff [of "line_blen val"] by linarith
  have "offset + word_of_int (sint b div uint (line_blen val)) * ucast (line_len val)
          + word_of_int (sint b mod uint (line_blen val))
        = (word_of_int (uint offset + (sint b div uint (line_blen val)) * uint (line_len val)
             + sint b mod uint (line_blen val)) :: 64 word)"
    by (simp add: word_of_int_uint flip: uint_ucast_32_64)
  then show ?thesis
    using assms pos
    by (simp add: seek_target_def c_div_def c_mod_def ucast_32_64_eq_0 sint_ucast_32_64
        sdiv_nonneg smod_nonneg first_byte_def)
qed

lemma adjust_cases:
  assumes "faidx_adjust_position mt 1 c_name pb pe = Some (val, b, e)"
    and "0 \<le> sint b" and "sint b < uint (len val)"
  shows "hash mt c_name = Some val \<and>
         ((b = 0 \<and> e = 0) \<or>
          (e = len val - 1 \<and> uint (len val) \<le> uint pe \<and> 0 \<le> sint pe) \<or>
          (e = pe \<and> sint b \<le> sint pe))"
proof -
  from assms(1) obtain v where v: "hash mt c_name = Some v"
    by (auto simp: faidx_adjust_position_def split: option.splits)
  with assms(1) have val: "v = val" by (simp add: faidx_adjust_position_def Let_def)
  define beg1 where "beg1 = (if pe <s pb then pe else pb)"
  have "faidx_adjust_position mt 1 c_name pb pe =
          Some (val, (if beg1 <s 0 then 0 else if len val \<le> beg1 then len val else beg1),
                (if pe <s 0 then 0 else if len val \<le> pe then len val - 1 else pe))"
    using v val by (simp add: faidx_adjust_position_def Let_def beg1_def)
  with assms(1) have b: "b = (if beg1 <s 0 then 0 else if len val \<le> beg1 then len val else beg1)"
    and e: "e = (if pe <s 0 then 0 else if len val \<le> pe then len val - 1 else pe)"
    by simp_all
  have b1: "sint beg1 \<le> sint pe" by (simp add: beg1_def word_sless_alt)
  show ?thesis
  proof (cases "pe <s 0")
    case True
    with b1 have "beg1 <s 0" by (simp add: word_sless_alt)
    with True b e v val show ?thesis by simp
  next
    case False
    then have pe0: "0 \<le> sint pe" by (simp add: word_sless_alt)
    show ?thesis
    proof (cases "len val \<le> pe")
      case True
      with False e pe0 v val show ?thesis by (simp add: word_le_def)
    next
      case F2: False
      with False e have ee: "e = pe" by simp
      have "sint b \<le> sint pe"
      proof (cases "beg1 <s 0")
        case True with b pe0 show ?thesis by simp
      next
        case F3: False
        show ?thesis
        proof (cases "len val \<le> beg1")
          case True
          with F3 b have "b = len val" by simp
          with assms(2,3) uint_sint_64 [of b] show ?thesis by simp
        next
          case False with F3 b b1 show ?thesis by simp
        qed
      qed
      with ee v val show ?thesis by simp
    qed
  qed
qed

text \<open>
  The ranges that \<^verbatim>\<open>faidx_reader_fetch_seq\<close> and \<^verbatim>\<open>faidx_reader_fetch_qual\<close> pass on:
  after \<^verbatim>\<open>faidx_adjust_position\<close> with \<^verbatim>\<open>end_adjust = 1\<close> the byte count
  \<^verbatim>\<open>p_end_i + 1 - p_beg_i\<close> lies between 0 and \<open>2 ^ 63\<close>, so no negative range and
  none near \<^verbatim>\<open>SIZE_MAX\<close> reaches \<^verbatim>\<open>fai_retrieve\<close> from them.
\<close>

lemma adjust_range:
  assumes "faidx_adjust_position mt 1 c_name pb pe = Some (val, b, e)"
  shows "uint (e + 1 - b) \<le> 2 ^ 63"
proof -
  have hi: "sint x < 9223372036854775808" for x :: "64 word" using sint_lt [of x] by simp
  have up: "uint x = sint x" if "\<not> x <s 0" for x :: "64 word"
    using that uint_sint_64 [of x] by (simp add: word_sless_alt)
  from assms obtain v where v: "hash mt c_name = Some v"
    by (auto simp: faidx_adjust_position_def split: option.splits)
  with assms have val: "v = val" by (simp add: faidx_adjust_position_def Let_def)
  define beg1 where "beg1 = (if pe <s pb then pe else pb)"
  have "faidx_adjust_position mt 1 c_name pb pe =
          Some (val, (if beg1 <s 0 then 0 else if len val \<le> beg1 then len val else beg1),
                (if pe <s 0 then 0 else if len val \<le> pe then len val - 1 else pe))"
    using v val by (simp add: faidx_adjust_position_def Let_def beg1_def)
  with assms have b: "b = (if beg1 <s 0 then 0 else if len val \<le> beg1 then len val else beg1)"
    and e: "e = (if pe <s 0 then 0 else if len val \<le> pe then len val - 1 else pe)"
    by simp_all
  have b1: "sint beg1 \<le> sint pe" by (simp add: beg1_def word_sless_alt)
  show ?thesis
  proof (cases "pe <s 0")
    case True
    with b1 have "beg1 <s 0" by (simp add: word_sless_alt)
    with True b e show ?thesis by simp
  next
    case pe0: False
    have upe: "uint pe = sint pe" by (rule up [OF pe0])
    show ?thesis
    proof (cases "beg1 <s 0")
      case True
      then have b0: "b = 0" using b by simp
      show ?thesis
      proof (cases "len val \<le> pe")
        case True
        then have lp: "uint (len val) \<le> uint pe" by (simp add: word_le_def)
        have eq: "e + 1 - b = len val" using True pe0 e b0 by simp
        show ?thesis unfolding eq using lp upe hi [of pe] by simp
      next
        case False
        then have eq: "e + 1 - b = pe + 1" using pe0 e b0 by simp
        have "uint (pe + 1) = (uint pe + 1) mod 2 ^ 64" by (simp add: uint_word_ariths)
        also have "\<dots> = uint pe + 1"
          using upe hi [of pe] uint_ge_0 [of pe] by (intro mod64_trivial) linarith+
        finally have u: "uint (pe + 1) = uint pe + 1" .
        show ?thesis unfolding eq u using upe hi [of pe] by simp
      qed
    next
      case bn: False
      have ub1: "uint beg1 = sint beg1" by (rule up [OF bn])
      have le1: "uint beg1 \<le> uint pe" using ub1 upe b1 by simp
      show ?thesis
      proof (cases "len val \<le> pe")
        case True
        then have lp: "uint (len val) \<le> uint pe" by (simp add: word_le_def)
        show ?thesis
        proof (cases "len val \<le> beg1")
          case T2: True
          have eq: "e + 1 - b = 0" using bn b T2 True pe0 e by simp
          show ?thesis unfolding eq by simp
        next
          case F2: False
          then have lt: "uint beg1 < uint (len val)" by (simp add: word_le_def not_le)
          have eq: "e + 1 - b = len val - beg1" using True pe0 e bn F2 b by simp
          have "uint (len val - beg1) = (uint (len val) - uint beg1) mod 2 ^ 64"
            by (rule uint_diff_64)
          also have "\<dots> = uint (len val) - uint beg1"
            using lt lp upe hi [of pe] uint_ge_0 [of beg1] by (intro mod64_trivial) linarith+
          finally have u: "uint (len val - beg1) = uint (len val) - uint beg1" .
          have "uint (len val) - uint beg1 \<le> 9223372036854775808"
            using lp upe hi [of pe] uint_ge_0 [of beg1] by linarith
          then show ?thesis unfolding eq u by simp
        qed
      next
        case False
        then have "uint pe < uint (len val)" by (simp add: word_le_def not_le)
        with le1 have "\<not> len val \<le> beg1" by (simp add: word_le_def)
        with bn b have bb: "b = beg1" by simp
        from False pe0 e have ee: "e = pe" by simp
        have eq: "e + 1 - b = pe - beg1 + 1" unfolding bb ee by simp
        have "uint (pe - beg1) = (uint pe - uint beg1) mod 2 ^ 64" by (rule uint_diff_64)
        also have "\<dots> = uint pe - uint beg1"
          using le1 upe hi [of pe] uint_ge_0 [of beg1] by (intro mod64_trivial) linarith+
        finally have d: "uint (pe - beg1) = uint pe - uint beg1" .
        have "uint (pe - beg1 + 1) = (uint (pe - beg1) + 1) mod 2 ^ 64"
          by (simp add: uint_word_ariths)
        also have "\<dots> = uint (pe - beg1) + 1"
          using d le1 upe hi [of pe] uint_ge_0 [of beg1]
          by (intro mod64_trivial) linarith+
        finally have u: "uint (pe - beg1 + 1) = uint (pe - beg1) + 1" .
        have "uint pe - uint beg1 + 1 \<le> 9223372036854775808"
          using upe hi [of pe] uint_ge_0 [of beg1] by linarith
        then show ?thesis unfolding eq u d by simp
      qed
    qed
  qed
qed

section \<open>Reading a file held in memory\<close>

text \<open>
  With the decoder \<open>mem_lib\<close> over any contents \<open>cs\<close>, the retrieval is followed
  through all its reads. \<open>byte_offset base k L S\<close> is the offset of payload byte \<open>k\<close>;
  the invariant of the loop over the complete lines is that \<^verbatim>\<open>s\<close> stands at the
  start of a line and the buffer holds the payload bytes before it.
\<close>

lemma first_byte_int:
  "first_byte (int base) (int k) (int payload) (int stride) = int (byte_offset base k payload stride)"
  by (simp add: first_byte_def byte_offset_def zdiv_int zmod_int)

lemma byte_offset_same_line:
  assumes "k mod L + i < L"
  shows "byte_offset base (k + i) L S = byte_offset base k L S + i"
proof -
  define q where "q = k div L"
  define r where "r = k mod L"
  have k: "k = L * q + r" by (simp add: q_def r_def)
  have r: "r + i < L" using assms by (simp add: r_def)
  have "L * q \<le> k + i" using k by simp
  moreover have "k + i < L * Suc q" using k r by simp
  ultimately have d: "(k + i) div L = q" by (rule div_nat_eqI)
  have "(k + i) mod L = k + i - L * ((k + i) div L)" by (simp add: modulo_nat_def mult.commute)
  also have "\<dots> = r + i" unfolding d using k by simp
  finally have m: "(k + i) mod L = r + i" .
  show ?thesis unfolding byte_offset_def d m by (simp add: q_def r_def)
qed

lemma byte_offset_next_line:
  assumes "0 < L"
  shows "byte_offset base (k + L) L S = byte_offset base k L S + S"
proof -
  have "L \<noteq> 0" using assms by simp
  then have "(k + L) div L = Suc (k div L)" by (simp add: div_add_self2)
  then show ?thesis by (simp add: byte_offset_def)
qed

lemma byte_offset_mono:
  assumes "0 < L" and "L \<le> S" and "k \<le> k'"
  shows "byte_offset base k L S \<le> byte_offset base k' L S"
proof (cases "k div L = k' div L")
  case True
  have "k = k div L * L + k mod L" "k' = k' div L * L + k' mod L" by simp_all
  with True assms(3) have "k mod L \<le> k' mod L"
    by (metis add_le_cancel_left)
  with True show ?thesis by (simp add: byte_offset_def)
next
  case False
  have "k div L \<le> k' div L" using assms(3) by (rule div_le_mono)
  with False have "Suc (k div L) \<le> k' div L" by simp
  then have "Suc (k div L) * S \<le> k' div L * S" by (rule mult_le_mono1)
  moreover have "k mod L < S"
    by (rule less_le_trans [OF mod_less_divisor [OF assms(1)] assms(2)])
  ultimately show ?thesis unfolding byte_offset_def by simp
qed

lemma byte_offset_ge:
  assumes "L \<le> S"
  shows "k \<le> byte_offset base k L S"
proof -
  have "k = k div L * L + k mod L" by simp
  moreover have "k div L * L \<le> k div L * S" using assms by (rule mult_le_mono2)
  ultimately show ?thesis unfolding byte_offset_def by linarith
qed

lemma mem_seek:
  assumes "k < 2 ^ 63"
  shows "bgzf_useek mem_lib d (of_nat k) = (d\<lparr>strm := (strm d)\<lparr>position := k\<rparr>\<rparr>, 0)"
  using assms by (simp add: mem_lib_def word_sless_alt sint_of_nat_64 unat_of_nat_64)

lemma mem_read:
  assumes "p + k \<le> length cs" and "k < 2 ^ 63"
  shows "bgzf_read mem_lib (d\<lparr>strm := \<lparr>contents = cs, position = p\<rparr>\<rparr>) (of_nat k) =
           (d\<lparr>strm := \<lparr>contents = cs, position = p + k\<rparr>\<rparr>, RdOk (take k (drop p cs)))"
  using assms by (simp add: mem_lib_def Let_def unat_of_nat_64 min_def)

lemma nth_read:
  assumes "p + k \<le> length cs" and "i < k"
  shows "take k (drop p cs) ! i = cs ! (p + i)"
  using assms by simp

lemma write_at_below: "i < p \<Longrightarrow> write_at buffer p bs i = buffer i"
  by (simp add: write_at_def)

lemma write_at_in: "p \<le> i \<Longrightarrow> i < p + length bs \<Longrightarrow> write_at buffer p bs i = bs ! (i - p)"
  by (simp add: write_at_def)

lemma read_lines_mem:
  fixes val :: faidx1_t and cs :: "byte list" and d :: "mem_file BGZF"
  assumes Ldef: "unat (line_blen val) = L" and Sdef: "unat (line_len val) = S"
    and L: "0 < L" and LS: "L \<le> S"
    and fit: "byte_offset base (B + N - 1) L S < length cs" and small: "length cs < 2 ^ 63"
    and cap: "N + S - L < cap"
    and al: "(B + t) mod L = 0" and sum: "t + R = N" and R: "0 < R"
    and inv: "\<forall>i<t. buffer i = cs ! byte_offset base (B + i) L S"
  shows "\<exists>buffer' t' R'.
           read_lines mem_lib val cap
               (d\<lparr>strm := \<lparr>contents = cs, position = byte_offset base (B + t) L S\<rparr>\<rparr>)
               buffer t (of_nat R)
             = Some (Inr (d\<lparr>strm := \<lparr>contents = cs, position = byte_offset base (B + t') L S\<rparr>\<rparr>,
                          Some (buffer', t', of_nat R')))
           \<and> 0 < R' \<and> R' \<le> L \<and> t' + R' = N \<and> (B + t') mod L = 0
           \<and> (\<forall>i<t'. buffer' i = cs ! byte_offset base (B + i) L S)"
  using al sum R inv
proof (induction R arbitrary: t buffer rule: less_induct)
  case (less R)
  note al = less.prems(1) and sum = less.prems(2) and R = less.prems(3) and inv = less.prems(4)
  let ?G = "\<lambda>k. byte_offset base k L S"
  let ?D = "\<lambda>p. d\<lparr>strm := \<lparr>contents = cs, position = p\<rparr>\<rparr>"
  have N1: "B + N - 1 \<le> ?G (B + N - 1)" using LS by (rule byte_offset_ge)
  have Nb: "N < 2 ^ 63" using N1 fit small sum R by linarith
  have Rb: "R < 2 ^ 63" using Nb sum by linarith
  have sR: "sint (of_nat R :: 64 word) = int R" by (rule sint_of_nat_64 [OF Rb])
  have uL: "uint (line_blen val) = int L" using Ldef by (simp add: uint_nat)
  have uS: "uint (line_len val) = int S" using Sdef by (simp add: uint_nat)
  show ?case
  proof (cases "L < R")
    case False
    then have "read_lines mem_lib val cap (?D (?G (B + t))) buffer t (of_nat R)
               = Some (Inr (?D (?G (B + t)), Some (buffer, t, of_nat R)))"
      by (subst read_lines.simps) (simp add: uL sR)
    with False al sum R inv show ?thesis by (intro exI [of _ buffer] exI [of _ t] exI [of _ R]) simp
  next
    case True
    let ?p = "?G (B + t)"
    let ?bs = "take S (drop ?p cs)"
    let ?buffer1 = "write_at buffer t ?bs"
    have nx: "?G (B + t + L) = ?p + S" by (rule byte_offset_next_line [OF L])
    have "B + t + L \<le> B + N - 1" using True sum by linarith
    then have "?G (B + t + L) \<le> ?G (B + N - 1)" by (rule byte_offset_mono [OF L LS])
    then have pS: "?p + S \<le> length cs" using nx fit by linarith
    have Sb: "S < 2 ^ 63" using pS small by linarith
    have lbs: "length ?bs = S" using pS by simp
    have rd: "bgzf_read mem_lib (?D ?p) (ucast (line_len val)) = (?D (?p + S), RdOk ?bs)"
      unfolding ucast_of_nat_32_64 Sdef by (rule mem_read [OF pS Sb])
    have capok: "\<not> cap < t + S" using cap True sum by linarith
    have rem: "(of_nat R :: 64 word) - ucast (line_blen val) = of_nat (R - L)"
      unfolding ucast_of_nat_32_64 Ldef using True by (simp add: of_nat_diff)
    have step: "read_lines mem_lib val cap (?D ?p) buffer t (of_nat R)
               = read_lines mem_lib val cap (?D (?G (B + (t + L)))) ?buffer1 (t + L) (of_nat (R - L))"
      using True rd capok lbs nx
      by (subst read_lines.simps) (simp add: uL uS sR rem Ldef add.assoc)
    have al': "(B + (t + L)) mod L = 0" using al by (simp add: add.assoc [symmetric])
    have sum': "t + L + (R - L) = N" using True sum by simp
    have R': "0 < R - L" using True by simp
    have inv': "\<forall>i<t + L. ?buffer1 i = cs ! ?G (B + i)"
    proof (intro allI impI)
      fix i assume i: "i < t + L"
      show "?buffer1 i = cs ! ?G (B + i)"
      proof (cases "i < t")
        case True
        then show ?thesis using inv by (simp add: write_at_below)
      next
        case False
        then have si: "t \<le> i" by simp
        have "i < t + length ?bs" using i LS lbs by simp
        then have "?buffer1 i = ?bs ! (i - t)" using si by (simp add: write_at_in)
        also have "\<dots> = cs ! (?p + (i - t))" using i si LS pS by (intro nth_read) simp_all
        also have "?p + (i - t) = ?G (B + t + (i - t))"
          using al i si by (intro byte_offset_same_line [symmetric]) simp
        also have "B + t + (i - t) = B + i" using si by simp
        finally show ?thesis .
      qed
    qed
    have less': "R - L < R" using True L by simp
    from less.IH [OF less' al' sum' R' inv']
    show ?thesis unfolding step .
  qed
qed

lemma c_string_eq:
  assumes "\<And>i. i < k \<Longrightarrow> buffer i = f i"
  shows "c_string buffer k = map f [0..<k]"
  using assms by (simp add: c_string_def)

lemma retrieve_one_line_mem:
  fixes cs :: "byte list" and d :: "mem_file BGZF"
  assumes fit: "p + N \<le> length cs" and Nb: "N < 2 ^ 63" and cap: "N < cap"
  shows "retrieve_one_line mem_lib (d\<lparr>strm := \<lparr>contents = cs, position = p\<rparr>\<rparr>) buffer cap (of_nat N)
           = Some (Inr (Some (map (\<lambda>i. cs ! (p + i)) [0..<N]), of_nat N,
                        d\<lparr>strm := \<lparr>contents = cs, position = p + N\<rparr>\<rparr>))"
proof -
  let ?bs = "take N (drop p cs)"
  have lbs: "length ?bs = N" using fit by simp
  have rd: "bgzf_read mem_lib (d\<lparr>strm := \<lparr>contents = cs, position = p\<rparr>\<rparr>) (of_nat N)
            = (d\<lparr>strm := \<lparr>contents = cs, position = p + N\<rparr>\<rparr>, RdOk ?bs)"
    by (rule mem_read [OF fit Nb])
  have str: "c_string (write_at buffer 0 ?bs) N = map (\<lambda>i. cs ! (p + i)) [0..<N]"
  proof (rule c_string_eq)
    fix i assume "i < N"
    then show "write_at buffer 0 ?bs i = cs ! (p + i)"
      using fit lbs by (simp add: write_at_in)
  qed
  show ?thesis
    using rd lbs cap str by (simp add: retrieve_one_line_def sint_of_nat_64 [OF Nb])
qed

lemma retrieve_last_line_mem:
  fixes cs :: "byte list" and d :: "mem_file BGZF"
  assumes fit: "p + R \<le> length cs" and R: "0 < R" and Rb: "R < 2 ^ 63" and cap: "t + R < cap"
  shows "retrieve_last_line mem_lib cap c (d\<lparr>strm := \<lparr>contents = cs, position = p\<rparr>\<rparr>) buffer t
             (of_nat R)
           = Some (Inr (Some (c_string (write_at buffer t (take R (drop p cs))) (t + R)), c,
                        d\<lparr>strm := \<lparr>contents = cs, position = p + R\<rparr>\<rparr>))"
proof -
  let ?bs = "take R (drop p cs)"
  have lbs: "length ?bs = R" using fit by simp
  have rd: "bgzf_read mem_lib (d\<lparr>strm := \<lparr>contents = cs, position = p\<rparr>\<rparr>) (of_nat R)
            = (d\<lparr>strm := \<lparr>contents = cs, position = p + R\<rparr>\<rparr>, RdOk ?bs)"
    by (rule mem_read [OF fit Rb])
  have pos: "0 <s (of_nat R :: 64 word)"
    using R by (simp add: word_sless_alt sint_of_nat_64 [OF Rb])
  show ?thesis
    using rd lbs cap pos
    by (simp add: retrieve_last_line_def sint_of_nat_64 [OF Rb] unat_of_nat_64 [OF Rb])
qed

lemma retrieve_lines_mem:
  fixes val :: faidx1_t and cs :: "byte list" and d :: "mem_file BGZF"
  assumes Ldef: "unat (line_blen val) = L" and Sdef: "unat (line_len val) = S"
    and L: "0 < L" and LS: "L \<le> S"
    and fit: "byte_offset base (B + N - 1) L S < length cs" and small: "length cs < 2 ^ 63"
    and cap: "N + S - L < cap" and multi: "L - B mod L < N"
  shows "retrieve_lines mem_lib val
             (d\<lparr>strm := \<lparr>contents = cs, position = byte_offset base B L S\<rparr>\<rparr>) buffer cap
             (of_nat (B mod L)) (of_nat N)
           = Some (Inr (Some (map (\<lambda>i. cs ! byte_offset base (B + i) L S) [0..<N]), of_nat N,
                        d\<lparr>strm := \<lparr>contents = cs,
                                     position = byte_offset base (B + N - 1) L S + 1\<rparr>\<rparr>))"
proof -
  let ?G = "\<lambda>k. byte_offset base k L S"
  let ?D = "\<lambda>p. d\<lparr>strm := \<lparr>contents = cs, position = p\<rparr>\<rparr>"
  define rr where "rr = B mod L"
  define t1 where "t1 = L - rr"
  have rrL: "rr < L" unfolding rr_def using L by simp
  have t1: "0 < t1" "t1 \<le> L" "rr + t1 = L" using rrL by (simp_all add: t1_def)
  have multi': "t1 < N" using multi by (simp add: t1_def rr_def)
  have N1: "B + N - 1 \<le> ?G (B + N - 1)" using LS by (rule byte_offset_ge)
  have Nb: "N < 2 ^ 63" using N1 fit small multi' by linarith
  have al1: "(B + t1) mod L = 0"
  proof -
    have "(B + t1) mod L = (B mod L + t1) mod L" by (simp add: mod_add_left_eq)
    also have "\<dots> = L mod L" using t1(3) by (simp add: rr_def)
    finally show ?thesis by simp
  qed
  have line0: "?G (B + i) = ?G B + i" if "i < t1" for i
    using that t1(3) by (intro byte_offset_same_line) (simp add: rr_def)
  have Brr: "rr \<le> B" unfolding rr_def by (rule mod_less_eq_dividend)
  have G0: "?G B = ?G (B - rr) + rr"
  proof -
    have "(B - rr) mod L = 0" unfolding rr_def by (simp add: mod_eq_0_iff_dvd dvd_minus_mod)
    then have "?G (B - rr + rr) = ?G (B - rr) + rr"
      using rrL by (intro byte_offset_same_line) simp
    then show ?thesis using Brr by simp
  qed
  have "B + t1 = B - rr + L" using Brr t1(3) by linarith
  then have "?G (B + t1) = ?G (B - rr) + S" by (simp add: byte_offset_next_line [OF L])
  then have pos1: "?G B + (S - rr) = ?G (B + t1)" using G0 rrL LS by linarith
  have "B + t1 \<le> B + N - 1" using multi' by linarith
  then have "?G (B + t1) \<le> ?G (B + N - 1)" by (rule byte_offset_mono [OF L LS])
  then have fit1: "?G B + (S - rr) \<le> length cs" using pos1 fit by linarith
  have Sb: "S - rr < 2 ^ 63" using fit1 small by linarith
  let ?bs1 = "take (S - rr) (drop (?G B) cs)"
  let ?buffer1 = "write_at buffer 0 ?bs1"
  have lbs1: "length ?bs1 = S - rr" using fit1 by simp
  have fb: "ucast (line_blen val) - (of_nat rr :: 64 word) = of_nat t1"
    unfolding ucast_of_nat_32_64 Ldef t1_def using rrL by (simp add: of_nat_diff)
  have fl: "ucast (line_len val) - (of_nat rr :: 64 word) = of_nat (S - rr)"
    unfolding ucast_of_nat_32_64 Sdef using rrL LS by (simp add: of_nat_diff)
  have rd1: "bgzf_read mem_lib (?D (?G B)) (of_nat (S - rr)) = (?D (?G (B + t1)), RdOk ?bs1)"
    unfolding pos1 [symmetric] by (rule mem_read [OF fit1 Sb])
  have rem1: "(of_nat N :: 64 word) - of_nat t1 = of_nat (N - t1)"
    using multi' by (simp add: of_nat_diff)
  have s1b: "t1 < 2 ^ 63" using multi' Nb by linarith
  have inv1: "\<forall>i<t1. ?buffer1 i = cs ! ?G (B + i)"
  proof (intro allI impI)
    fix i assume i: "i < t1"
    then have "i < S - rr" using t1(3) LS by linarith
    then have "?buffer1 i = cs ! (?G B + i)" using fit1 lbs1 by (simp add: write_at_in)
    then show "?buffer1 i = cs ! ?G (B + i)" using line0 [OF i] by simp
  qed
  from read_lines_mem [where d = d and buffer = ?buffer1, OF Ldef Sdef L LS fit small cap al1 _ _ inv1,
      of "N - t1"] multi'
  obtain buffer' t' R' where
    rl: "read_lines mem_lib val cap (?D (?G (B + t1))) ?buffer1 t1 (of_nat (N - t1))
           = Some (Inr (?D (?G (B + t')), Some (buffer', t', of_nat R')))"
    and R': "0 < R'" "R' \<le> L" "t' + R' = N" and al': "(B + t') mod L = 0"
    and inv': "\<forall>i<t'. buffer' i = cs ! ?G (B + i)"
    by auto
  have line': "?G (B + t' + i) = ?G (B + t') + i" if "i < R'" for i
    using that R'(2) al' by (intro byte_offset_same_line) simp
  have "B + t' + (R' - 1) = B + N - 1" using R' by linarith
  with line' [of "R' - 1"] R'(1) have posf: "?G (B + t') + R' = ?G (B + N - 1) + 1" by simp
  then have fit': "?G (B + t') + R' \<le> length cs" using fit by linarith
  have R'b: "R' < 2 ^ 63" using R'(3) Nb by linarith
  have cap': "t' + R' < cap" using cap R'(3) LS by linarith
  let ?bs = "take R' (drop (?G (B + t')) cs)"
  have lbs: "length ?bs = R'" using fit' by simp
  have last: "retrieve_last_line mem_lib cap (of_nat N) (?D (?G (B + t'))) buffer' t' (of_nat R')
           = Some (Inr (Some (c_string (write_at buffer' t' ?bs) (t' + R')), of_nat N,
                        ?D (?G (B + t') + R')))"
    by (rule retrieve_last_line_mem [OF fit' R'(1) R'b cap'])
  have str: "c_string (write_at buffer' t' ?bs) (t' + R')
             = map (\<lambda>i. cs ! ?G (B + i)) [0..<t' + R']"
  proof (rule c_string_eq)
    fix i assume i: "i < t' + R'"
    show "write_at buffer' t' ?bs i = cs ! ?G (B + i)"
    proof (cases "i < t'")
      case True
      then show ?thesis using inv' by (simp add: write_at_below)
    next
      case False
      then have ti: "t' \<le> i" by simp
      have "write_at buffer' t' ?bs i = ?bs ! (i - t')" using i ti lbs by (simp add: write_at_in)
      also have "\<dots> = cs ! (?G (B + t') + (i - t'))" using i ti fit' by (intro nth_read) simp_all
      also have "?G (B + t') + (i - t') = ?G (B + t' + (i - t'))"
        using i ti by (intro line' [symmetric]) simp
      also have "B + t' + (i - t') = B + i" using ti by simp
      finally show ?thesis .
    qed
  qed
  have cap1: "\<not> cap < S - rr" using cap multi' t1(3) by linarith
  show ?thesis
    unfolding retrieve_lines_def rr_def [symmetric] fb fl Let_def
    using rd1 lbs1 cap1 rl last str posf R'(3)
    by (simp add: sint_of_nat_64 [OF Sb] unat_of_nat_64 [OF s1b] rem1)
qed

lemma fai_retrieve_mem:
  fixes val :: faidx1_t and cs :: "byte list" and d :: "mem_file BGZF"
  assumes Ldef: "unat (line_blen val) = L" and Sdef: "unat (line_len val) = S"
    and L: "0 < L" and LS: "L \<le> S" and N: "0 < N"
    and fit: "byte_offset base (B + N - 1) L S < length cs" and small: "length cs < 2 ^ 63"
    and st: "strm d = \<lparr>contents = cs, position = p0\<rparr>"
    and alloc: "malloc (of_nat (B + N) - of_nat B + ucast (line_len val) - ucast (line_blen val) + 1)
                  = Some buffer"
  shows "fai_retrieve mem_lib malloc d val (of_nat base) (of_nat B) (of_nat (B + N))
           = Some (Inr (Some (map (\<lambda>i. cs ! byte_offset base (B + i) L S) [0..<N]), of_nat N,
                        d\<lparr>strm := \<lparr>contents = cs,
                                     position = byte_offset base (B + N - 1) L S + 1\<rparr>\<rparr>))"
proof -
  let ?G = "\<lambda>k. byte_offset base k L S"
  let ?D = "\<lambda>p. d\<lparr>strm := \<lparr>contents = cs, position = p\<rparr>\<rparr>"
  let ?sz = "of_nat (B + N) - of_nat B + ucast (line_len val) - ucast (line_blen val) + 1 :: 64 word"
  have N1: "B + N - 1 \<le> ?G (B + N - 1)" using LS by (rule byte_offset_ge)
  have Nb: "N < 2 ^ 63" and Bb: "B < 2 ^ 63" using N1 fit small N by linarith+
  have "?G B \<le> ?G (B + N - 1)" using N by (intro byte_offset_mono [OF L LS]) simp
  then have Gb: "?G B < 2 ^ 63" using fit small by linarith
  have "base \<le> ?G B" by (simp add: byte_offset_def)
  then have baseb: "base < 2 ^ 63" using Gb by linarith
  have uL: "uint (line_blen val) = int L" using Ldef by (simp add: uint_nat)
  have uS: "uint (line_len val) = int S" using Sdef by (simp add: uint_nat)
  have nz: "line_blen val \<noteq> 0" using Ldef L by auto
  have cnt: "(of_nat (B + N) :: 64 word) - of_nat B = of_nat N" by simp
  have "N < 9223372036854775808" using Nb by simp
  then have g1: "\<not> SIZE_MAX - 2 \<le> unat (of_nat N :: 64 word)"
    by (simp add: SIZE_MAX_def unat_of_nat_64 [OF Nb])
  have g2: "\<not> line_blen val \<le> 0" using nz by simp
  have sB: "sint (of_nat B :: 64 word) = int B" by (rule sint_of_nat_64 [OF Bb])
  have ubase: "uint (of_nat base :: 64 word) = int base"
    by (simp add: uint_nat unat_of_nat_64 [OF baseb])
  have seek: "seek_target val (of_nat base) (of_nat B) = Inr (of_nat (?G B))"
    using seek_target_nonneg [OF nz, of "of_nat B" "of_nat base"]
    by (simp add: sB ubase uL uS first_byte_int)
  have sk: "bgzf_useek mem_lib d (of_nat (?G B)) = (?D (?G B), 0)"
    using mem_seek [OF Gb, of d] st by simp
  have cm: "c_mod (of_nat B) (ucast (line_blen val)) = Some (of_nat (B mod L))"
    using nz L
    by (simp add: c_mod_def ucast_32_64_eq_0 sB sint_ucast_32_64 uL smod_nonneg
        flip: zmod_int)
  have "S < 4294967296" using unat_32_bound [of "line_len val"] Sdef by simp
  then have szb: "N + S - L + 1 < 18446744073709551616"
    using \<open>N < 9223372036854775808\<close> by linarith
  have szw: "?sz = of_nat (N + S - L + 1)"
    unfolding cnt ucast_of_nat_32_64 Ldef Sdef using LS by (simp add: of_nat_diff)
  have cap: "unat ?sz = N + S - L + 1"
    unfolding szw by (rule unat_of_nat_64_full [OF szb])
  have capN: "N < unat ?sz" "N + S - L < unat ?sz" using cap LS by linarith+
  have rL: "B mod L < L" using L by simp
  have fb: "ucast (line_blen val) - (of_nat (B mod L) :: 64 word) = of_nat (L - B mod L)"
    unfolding ucast_of_nat_32_64 Ldef using rL by (simp add: of_nat_diff)
  have "L - B mod L < 2 ^ 63" using unat_32_bound [of "line_blen val"] Ldef by simp
  then have sfb: "sint (of_nat (L - B mod L) :: 64 word) = int (L - B mod L)"
    by (rule sint_of_nat_64)
  have tst: "(of_nat N :: 64 word) \<le>s ucast (line_blen val) - of_nat (B mod L)
             \<longleftrightarrow> N \<le> L - B mod L"
    unfolding fb by (simp add: word_sle_eq sfb sint_of_nat_64 [OF Nb])
  have body: "retrieve_body mem_lib malloc (?D (?G B)) val (of_nat B) (of_nat (B + N))
           = Some (Inr (Some (map (\<lambda>i. cs ! ?G (B + i)) [0..<N]), of_nat N,
                        ?D (?G (B + N - 1) + 1)))"
  proof (cases "N \<le> L - B mod L")
    case True
    have line: "?G (B + i) = ?G B + i" if "i < N" for i
      using that True rL by (intro byte_offset_same_line) linarith
    have "B + (N - 1) = B + N - 1" using N by simp
    with line [of "N - 1"] N have pe: "?G B + N = ?G (B + N - 1) + 1" by simp
    then have fit1: "?G B + N \<le> length cs" using fit by linarith
    have "map (\<lambda>i. cs ! (?G B + i)) [0..<N] = map (\<lambda>i. cs ! ?G (B + i)) [0..<N]"
      using line by simp
    with retrieve_one_line_mem [OF fit1 Nb capN(1), of d buffer] pe
    have "retrieve_one_line mem_lib (?D (?G B)) buffer (unat ?sz) (of_nat N)
           = Some (Inr (Some (map (\<lambda>i. cs ! ?G (B + i)) [0..<N]), of_nat N,
                        ?D (?G (B + N - 1) + 1)))"
      by simp
    with True tst alloc cm show ?thesis
      unfolding retrieve_body_def Let_def cnt by simp
  next
    case False
    then have multi: "L - B mod L < N" by simp
    from retrieve_lines_mem [OF Ldef Sdef L LS fit small capN(2) multi, of d buffer]
    have "retrieve_lines mem_lib val (?D (?G B)) buffer (unat ?sz) (of_nat (B mod L)) (of_nat N)
           = Some (Inr (Some (map (\<lambda>i. cs ! ?G (B + i)) [0..<N]), of_nat N,
                        ?D (?G (B + N - 1) + 1)))" .
    with False tst alloc cm show ?thesis
      unfolding retrieve_body_def Let_def cnt by simp
  qed
  show ?thesis
    unfolding fai_retrieve_def cnt using g1 g2 seek sk body by simp
qed

lemma fetch_seq_seek_operand:
  assumes "h (meta reader) = Some mt"
    and "faidx_adjust_position mt 1 c_name pb pe = Some (val, b, e)"
    and "1 \<le> uint (line_blen val)"
    and "0 \<le> sint b" and "sint b < uint (len val)"
  shows "faidx_reader_fetch_seq lib malloc h reader c_name pb pe =
           (case bgzf_useek lib (bgzf reader)
                   (word_of_int (first_byte (uint (seq_offset val)) (sint b)
                                   (uint (line_blen val)) (uint (line_len val)))) of
              (d, ret) \<Rightarrow>
                if ret < 0 then Some (Inr (None, - 1, d))
                else retrieve_body lib malloc d val b (e + 1))"
proof -
  let ?F = "first_byte (uint (seq_offset val)) (sint b) (uint (line_blen val))
              (uint (line_len val))"
  have lp: "line_blen val \<noteq> 0" using assms(3) by auto
  have "uint (e + 1 - b) \<le> 2 ^ 63" by (rule adjust_range [OF assms(2)])
  then have "uint (e + 1 - b) \<le> 9223372036854775808" by simp
  moreover have "unat (e + 1 - b) = nat (uint (e + 1 - b))" by (rule unat_nat_uint_64)
  moreover have "SIZE_MAX - 2 = 18446744073709551613" by (simp add: SIZE_MAX_def)
  ultimately have g: "\<not> SIZE_MAX - 2 \<le> unat (e + 1 - b)" by linarith
  have t: "seek_target val (seq_offset val) b = Inr (word_of_int ?F)"
    by (rule seek_target_nonneg [OF lp assms(4)])
  have 1: "faidx_reader_fetch_seq lib malloc h reader c_name pb pe =
          fai_retrieve lib malloc (bgzf reader) val (seq_offset val) b (e + 1)"
    using assms(1,2) by (simp add: faidx_reader_fetch_seq_def)
  show ?thesis unfolding 1 using g lp t by (simp add: fai_retrieve_def)
qed

lemma adjust_order:
  assumes "faidx_adjust_position mt 1 c_name pb pe = Some (val, b, e)"
    and "0 \<le> sint b" and "sint b < uint (len val)"
  shows "sint b \<le> sint e"
proof -
  have hi: "sint x < 9223372036854775808" for x :: "64 word" using sint_lt [of x] by simp
  from adjust_cases [OF assms]
  consider "b = 0 \<and> e = 0"
    | "e = len val - 1 \<and> uint (len val) \<le> uint pe \<and> 0 \<le> sint pe"
    | "e = pe \<and> sint b \<le> sint pe" by blast
  then show ?thesis
  proof cases
    case 1 then show ?thesis by simp
  next
    case 2
    then have "uint pe = sint pe" using uint_sint_64 [of pe] by simp
    with 2 hi [of pe] have Lb: "uint (len val) < 9223372036854775808" by simp
    have "len val - 1 = word_of_int (uint (len val) - 1)" by simp
    moreover have "sint (word_of_int (uint (len val) - 1) :: 64 word) = uint (len val) - 1"
      using Lb assms(2,3) by (intro sint_word_of_int_64) simp_all
    ultimately have "sint (len val - 1) = uint (len val) - 1" by simp
    with 2 assms(3) show ?thesis by simp
  next
    case 3 then show ?thesis by simp
  qed
qed

lemma fetch_seq_mem_bytes:
  fixes reader :: "mem_file faidx_reader_t"
  assumes "h (meta reader) = Some mt"
    and "faidx_adjust_position mt 1 c_name pb pe = Some (val, b, e)"
    and "1 \<le> uint (line_blen val)"
    and "0 \<le> sint b" and "sint b < uint (len val)"
    and "line_blen val \<le> line_len val"
    and "strm (bgzf reader) = \<lparr>contents = cs, position = p0\<rparr>"
    and "first_byte (uint (seq_offset val)) (sint e) (uint (line_blen val)) (uint (line_len val))
           < int (length cs)"
    and "length cs < 2 ^ 63"
    and "malloc (e + 1 - b + ucast (line_len val) - ucast (line_blen val) + 1) = Some buffer"
  shows "faidx_reader_fetch_seq mem_lib malloc h reader c_name pb pe =
           Some (Inr (Some (map (\<lambda>i. cs ! nat (first_byte (uint (seq_offset val)) (sint b + int i)
                                                 (uint (line_blen val)) (uint (line_len val))))
                              [0..<nat (sint e - sint b + 1)]),
                      e + 1 - b,
                      (bgzf reader)\<lparr>strm := \<lparr>contents = cs,
                          position = nat (first_byte (uint (seq_offset val)) (sint e)
                                            (uint (line_blen val)) (uint (line_len val))) + 1\<rparr>\<rparr>))"
proof -
  define L where "L = unat (line_blen val)"
  define S where "S = unat (line_len val)"
  define base where "base = unat (seq_offset val)"
  define B where "B = nat (sint b)"
  define E where "E = nat (sint e)"
  define N where "N = E + 1 - B"
  have be: "sint b \<le> sint e" by (rule adjust_order [OF assms(2,4,5)])
  then have e0: "0 \<le> sint e" using assms(4) by simp
  have iB: "int B = sint b" and iE: "int E = sint e" using assms(4) e0 by (simp_all add: B_def E_def)
  have BE: "B \<le> E" using be iB iE by linarith
  have N: "0 < N" "B + N = E + 1" "B + N - 1 = E" using BE by (simp_all add: N_def)
  have uL: "uint (line_blen val) = int L" unfolding L_def by (rule uint_nat)
  have uS: "uint (line_len val) = int S" unfolding S_def by (rule uint_nat)
  have ub: "uint (seq_offset val) = int base" unfolding base_def by (rule uint_nat)
  have L: "0 < L" using assms(3) uL by simp
  have LS: "L \<le> S" using assms(6) by (simp add: L_def S_def word_le_nat_alt)
  have F: "first_byte (uint (seq_offset val)) (int k) (uint (line_blen val)) (uint (line_len val))
           = int (byte_offset base k L S)" for k
    unfolding ub uL uS by (rule first_byte_int)
  have fit: "byte_offset base (B + N - 1) L S < length cs"
    using assms(8) unfolding N(3) iE [symmetric] F by simp
  have "E \<le> byte_offset base E L S" using LS by (rule byte_offset_ge)
  then have Eb: "E + 1 < 2 ^ 63" using fit assms(9) N(3) by simp
  have wb: "b = of_nat B" unfolding B_def using assms(4) by (simp add: of_nat_nat_sint_64)
  have "e = of_nat E" unfolding E_def using e0 by (simp add: of_nat_nat_sint_64)
  then have we: "e + 1 = of_nat (B + N)" unfolding N(2) by simp
  have wo: "seq_offset val = of_nat base" by (simp add: base_def)
  have alloc: "malloc (of_nat (B + N) - of_nat B + ucast (line_len val) - ucast (line_blen val) + 1)
                 = Some buffer"
    using assms(10) unfolding we wb .
  have 1: "faidx_reader_fetch_seq mem_lib malloc h reader c_name pb pe =
          fai_retrieve mem_lib malloc (bgzf reader) val (of_nat base) (of_nat B) (of_nat (B + N))"
    using assms(1,2) unfolding we [symmetric] wb [symmetric] wo [symmetric]
    by (simp add: faidx_reader_fetch_seq_def)
  have cnt: "e + 1 - b = of_nat N" unfolding we wb by simp
  have Nn: "nat (sint e - sint b + 1) = N" using BE unfolding iB [symmetric] iE [symmetric] N_def by simp
  have bytes: "map (\<lambda>i. cs ! nat (first_byte (uint (seq_offset val)) (sint b + int i)
                                     (uint (line_blen val)) (uint (line_len val)))) [0..<N]
               = map (\<lambda>i. cs ! byte_offset base (B + i) L S) [0..<N]"
  proof -
    have "first_byte (uint (seq_offset val)) (sint b + int i) (uint (line_blen val))
            (uint (line_len val)) = int (byte_offset base (B + i) L S)" for i
      using F [of "B + i"] iB by simp
    then show ?thesis by simp
  qed
  have pos: "nat (first_byte (uint (seq_offset val)) (sint e) (uint (line_blen val))
                    (uint (line_len val))) = byte_offset base (B + N - 1) L S"
    unfolding N(3) iE [symmetric] F by simp
  show ?thesis
    unfolding 1 Nn bytes pos cnt
    by (rule fai_retrieve_mem [where val = val and L = L and S = S and N = N and B = B
          and base = base and cs = cs and d = "bgzf reader" and malloc = malloc
          and buffer = buffer and ?p0.0 = p0,
          OF L_def [symmetric] S_def [symmetric] L LS N(1) fit assms(9) assms(7) alloc])
qed

text \<open>
  Claim C1, amended. Let \<^verbatim>\<open>faidx_adjust_position\<close> give the descriptor \<open>val\<close> and the
  clamped positions \<open>b\<close> and \<open>e\<close>, with \<^verbatim>\<open>line_blen\<close> at least 1 and
  \<open>0 \<le> b < len\<close>. Then the first thing \<^verbatim>\<open>faidx_reader_fetch_seq\<close> does with the
  decoder is a seek, and its operand is the specification's \<open>first_byte\<close> of
  \<^verbatim>\<open>seq_offset\<close>, \<open>b\<close>, \<^verbatim>\<open>line_blen\<close> and \<^verbatim>\<open>line_len\<close> modulo \<open>2 ^ 64\<close>:
  exactly that integer whenever it is below \<open>2 ^ 64\<close>. When moreover \<^verbatim>\<open>line_blen\<close> is
  not above \<^verbatim>\<open>line_len\<close>, the source is a file of fewer than \<open>2 ^ 63\<close> bytes held in
  memory that reaches the \<open>first_byte\<close> of \<open>e\<close>, and the buffer is allocated, the
  call returns \<open>e - b + 1\<close> bytes, of which the one for position \<open>b + i\<close> is the
  byte of the file at the \<open>first_byte\<close> of \<open>b + i\<close>, and leaves the decoder behind
  the byte of \<open>e\<close>.
\<close>

theorem fetch_seq_seeks_first_byte:
  fixes reader :: "mem_file faidx_reader_t"
  assumes "h (meta reader) = Some mt"
    and "faidx_adjust_position mt 1 c_name pb pe = Some (val, b, e)"
    and "1 \<le> uint (line_blen val)"
    and "0 \<le> sint b" and "sint b < uint (len val)"
  shows "faidx_reader_fetch_seq lib malloc h reader c_name pb pe =
           (case bgzf_useek lib (bgzf reader)
                   (word_of_int (first_byte (uint (seq_offset val)) (sint b)
                                   (uint (line_blen val)) (uint (line_len val)))) of
              (d, ret) \<Rightarrow>
                if ret < 0 then Some (Inr (None, - 1, d))
                else retrieve_body lib malloc d val b (e + 1))
         \<and> uint (word_of_int (first_byte (uint (seq_offset val)) (sint b)
                                 (uint (line_blen val)) (uint (line_len val))) :: 64 word)
             = first_byte (uint (seq_offset val)) (sint b) (uint (line_blen val))
                 (uint (line_len val)) mod 2 ^ 64
         \<and> (first_byte (uint (seq_offset val)) (sint b) (uint (line_blen val))
                (uint (line_len val)) < 2 ^ 64 \<longrightarrow>
              uint (word_of_int (first_byte (uint (seq_offset val)) (sint b)
                                   (uint (line_blen val)) (uint (line_len val))) :: 64 word)
                = first_byte (uint (seq_offset val)) (sint b) (uint (line_blen val))
                    (uint (line_len val)))
         \<and> (line_blen val \<le> line_len val
              \<and> strm (bgzf reader) = \<lparr>contents = cs, position = p0\<rparr>
              \<and> first_byte (uint (seq_offset val)) (sint e) (uint (line_blen val))
                    (uint (line_len val)) < int (length cs)
              \<and> length cs < 2 ^ 63
              \<and> malloc (e + 1 - b + ucast (line_len val) - ucast (line_blen val) + 1)
                    = Some buffer \<longrightarrow>
              faidx_reader_fetch_seq mem_lib malloc h reader c_name pb pe =
                Some (Inr (Some (map (\<lambda>i. cs ! nat (first_byte (uint (seq_offset val))
                                                       (sint b + int i) (uint (line_blen val))
                                                       (uint (line_len val))))
                                   [0..<nat (sint e - sint b + 1)]),
                           e + 1 - b,
                           (bgzf reader)\<lparr>strm := \<lparr>contents = cs,
                               position = nat (first_byte (uint (seq_offset val)) (sint e)
                                                 (uint (line_blen val)) (uint (line_len val)))
                                          + 1\<rparr>\<rparr>)))"
proof -
  let ?F = "first_byte (uint (seq_offset val)) (sint b) (uint (line_blen val))
              (uint (line_len val))"
  note 1 = fetch_seq_seek_operand [where h = h and reader = reader and lib = lib
      and malloc = malloc, OF assms]
  have nonneg: "0 \<le> ?F"
    using assms(3,4) by (simp add: first_byte_def pos_imp_zdiv_nonneg_iff)
  have m: "uint (word_of_int ?F :: 64 word) = ?F mod 2 ^ 64"
    by (simp add: uint_word_of_int take_bit_eq_mod)
  have 2: "?F < 2 ^ 64 \<longrightarrow> uint (word_of_int ?F :: 64 word) = ?F"
    using nonneg by (simp add: uint_word_of_int take_bit_eq_mod)
  note 3 = fetch_seq_mem_bytes [where h = h and reader = reader and cs = cs and ?p0.0 = p0
      and malloc = malloc and buffer = buffer, OF assms]
  from 1 m 2 3 show ?thesis by blast
qed

theorem fetch_seq_seeks_first_byte_witness:
  "t_heap (meta t_reader) = Some t_meta
   \<and> faidx_adjust_position t_meta 1 ''s'' 1 9 = Some (t_val, 1, 9)
   \<and> 1 \<le> uint (line_blen t_val) \<and> 0 \<le> sint (1 :: 64 word) \<and> sint (1 :: 64 word) < uint (len t_val)
   \<and> first_byte (uint (seq_offset t_val)) (sint (1 :: 64 word)) (uint (line_blen t_val))
         (uint (line_len t_val)) = 4
   \<and> faidx_reader_fetch_seq mem_lib mem_alloc t_heap t_reader ''s'' 1 9 =
         (case bgzf_useek mem_lib (bgzf t_reader) 4 of
            (d, ret) \<Rightarrow>
              if ret < 0 then Some (Inr (None, - 1, d))
              else retrieve_body mem_lib mem_alloc d t_val 1 (9 + 1))
   \<and> line_blen t_val \<le> line_len t_val
   \<and> strm (bgzf t_reader) = \<lparr>contents = t_fa, position = 0\<rparr>
   \<and> first_byte (uint (seq_offset t_val)) (sint (9 :: 64 word)) (uint (line_blen t_val))
         (uint (line_len t_val)) = 14
   \<and> length t_fa = 16
   \<and> mem_alloc (9 + 1 - 1 + ucast (line_len t_val) - ucast (line_blen t_val) + 1) = Some (\<lambda>i. 0)
   \<and> faidx_reader_fetch_seq mem_lib mem_alloc t_heap t_reader ''s'' 1 9 =
         Some (Inr (Some [67, 71, 84, 65, 67, 71, 84, 65, 67], 9,
                    t_bgzf\<lparr>strm := \<lparr>contents = t_fa, position = 15\<rparr>\<rparr>))"
proof -
  have a: "t_heap (meta t_reader) = Some t_meta" by (simp add: t_heap_def t_reader_def)
  have b: "faidx_adjust_position t_meta 1 ''s'' 1 9 = Some (t_val, 1, 9)"
    by (simp add: faidx_adjust_position_def t_meta_def t_val_def Let_def word_sless_alt
        word_le_nat_alt)
  have c: "1 \<le> uint (line_blen t_val)" by (simp add: t_val_def)
  have d: "0 \<le> sint (1 :: 64 word)" by simp
  have e: "sint (1 :: 64 word) < uint (len t_val)" by (simp add: t_val_def)
  have f: "first_byte (uint (seq_offset t_val)) (sint (1 :: 64 word)) (uint (line_blen t_val))
         (uint (line_len t_val)) = 4" by (simp add: first_byte_def t_val_def)
  have g: "line_blen t_val \<le> line_len t_val" by (simp add: t_val_def word_le_nat_alt)
  have i: "strm (bgzf t_reader) = \<lparr>contents = t_fa, position = 0\<rparr>"
    by (simp add: t_reader_def t_bgzf_def)
  have j: "first_byte (uint (seq_offset t_val)) (sint (9 :: 64 word)) (uint (line_blen t_val))
         (uint (line_len t_val)) = 14" by (simp add: first_byte_def t_val_def)
  have k: "length t_fa = 16" by (simp add: t_fa_def)
  have l: "mem_alloc (9 + 1 - 1 + ucast (line_len t_val) - ucast (line_blen t_val) + 1)
             = Some (\<lambda>i. 0)" by (simp add: mem_alloc_def)
  have F: "first_byte (uint (seq_offset t_val)) (sint (1 :: 64 word) + int x)
             (uint (line_blen t_val)) (uint (line_len t_val))
           = 3 + (1 + int x) div 4 * 5 + (1 + int x) mod 4" for x
    by (simp add: first_byte_def t_val_def)
  have bytes: "map (\<lambda>x. t_fa ! nat (first_byte (uint (seq_offset t_val))
                                       (sint (1 :: 64 word) + int x) (uint (line_blen t_val))
                                       (uint (line_len t_val))))
                 [0..<nat (sint (9 :: 64 word) - sint (1 :: 64 word) + 1)]
               = [67, 71, 84, 65, 67, 71, 84, 65, 67]"
    unfolding F by (simp add: t_fa_def upt_rec)
  have r: "bgzf t_reader = t_bgzf" by (simp add: t_reader_def)
  note T = fetch_seq_seeks_first_byte [where h = t_heap and reader = t_reader
      and lib = mem_lib and malloc = mem_alloc and cs = t_fa and ?p0.0 = 0
      and buffer = "\<lambda>i. 0", OF a b c d e]
  have 1: "faidx_reader_fetch_seq mem_lib mem_alloc t_heap t_reader ''s'' 1 9 =
         (case bgzf_useek mem_lib (bgzf t_reader) 4 of
            (d, ret) \<Rightarrow>
              if ret < 0 then Some (Inr (None, - 1, d))
              else retrieve_body mem_lib mem_alloc d t_val 1 (9 + 1))"
    using T [THEN conjunct1] unfolding f by simp
  have prem: "line_blen t_val \<le> line_len t_val
      \<and> strm (bgzf t_reader) = \<lparr>contents = t_fa, position = 0\<rparr>
      \<and> first_byte (uint (seq_offset t_val)) (sint (9 :: 64 word)) (uint (line_blen t_val))
            (uint (line_len t_val)) < int (length t_fa)
      \<and> length t_fa < 2 ^ 63
      \<and> mem_alloc (9 + 1 - 1 + ucast (line_len t_val) - ucast (line_blen t_val) + 1)
            = Some (\<lambda>i. 0)"
    using g i l unfolding j k by simp
  have 2: "faidx_reader_fetch_seq mem_lib mem_alloc t_heap t_reader ''s'' 1 9 =
         Some (Inr (Some [67, 71, 84, 65, 67, 71, 84, 65, 67], 9,
                    t_bgzf\<lparr>strm := \<lparr>contents = t_fa, position = 15\<rparr>\<rparr>))"
    using T [THEN conjunct2, THEN conjunct2, THEN conjunct2, THEN mp, OF prem]
    unfolding bytes r j by simp
  from a b c d e f g i j k l 1 2 show ?thesis by blast
qed

text \<open>
  The claim as it stands fails where the formula leaves the 64 bits of the offset: with
  \<^verbatim>\<open>seq_offset\<close> \<open>2 ^ 64 - 1\<close> in the descriptor of \<^verbatim>\<open>t.fa\<close> and begin 5,
  the formula gives \<open>2 ^ 64 + 5\<close>, and the call seeks to offset 5 and reads from there.
\<close>

theorem fetch_seq_seeks_first_byte_counterexample:
  "faidx_adjust_position (t_meta\<lparr>hash := [''s'' \<mapsto> t_val\<lparr>seq_offset := - 1\<rparr>]\<rparr>) 1 ''s'' 5 6
      = Some (t_val\<lparr>seq_offset := - 1\<rparr>, 5, 6)
   \<and> first_byte (uint (seq_offset (t_val\<lparr>seq_offset := - 1\<rparr>))) (sint (5 :: 64 word))
         (uint (line_blen t_val)) (uint (line_len t_val)) = 2 ^ 64 + 5
   \<and> seek_target (t_val\<lparr>seq_offset := - 1\<rparr>) (- 1) 5 = Inr 5
   \<and> faidx_reader_fetch_seq mem_lib mem_alloc
         [0 \<mapsto> t_meta\<lparr>hash := [''s'' \<mapsto> t_val\<lparr>seq_offset := - 1\<rparr>]\<rparr>] t_reader ''s'' 5 6
      = Some (Inr (Some [71, 84], 2, t_bgzf\<lparr>strm := \<lparr>contents = t_fa, position = 7\<rparr>\<rparr>))"
proof -
  have "uint (- 1 :: 64 word) = 18446744073709551615"
    by (simp add: unsigned_minus_1_eq_mask mask_eq_exp_minus_1)
  then show ?thesis
    by (simp add: fixture_defs fetch_defs first_byte_def Let_def signed_divide_int_def
        signed_modulo_int_def word_sle_eq word_sless_alt word_le_nat_alt upt_rec)
qed
section \<open>Clamping of the end\<close>

text \<open>
  Claim C4. For a sequence of length \<open>L\<close> in the table and \<open>0 \<le> b < L\<close>, every end
  \<open>e \<ge> L - 1\<close> gives the result of the end \<open>L - 1\<close>: the same bytes, the same
  \<^verbatim>\<open>*len\<close>, the same decoder afterwards.
\<close>

theorem fetch_seq_end_clamped:
  assumes "h (meta reader) = Some mt" and "hash mt c_name = Some val"
    and "0 \<le> sint b" and "sint b < uint (len val)" and "uint (len val) - 1 \<le> sint e"
  shows "faidx_reader_fetch_seq lib malloc h reader c_name b e =
         faidx_reader_fetch_seq lib malloc h reader c_name b (len val - 1)"
proof -
  have hi: "sint x < 2 ^ 63" for x :: "64 word" using sint_lt [of x] by simp
  have ub: "uint b = sint b" using assms(3) uint_sint_64 [of b] by simp
  have e0: "0 \<le> sint e" using assms(3,4,5) by simp
  then have ue: "uint e = sint e" using uint_sint_64 [of e] by simp
  have L: "uint (len val) \<le> 2 ^ 63" using assms(5) hi [of e] by simp
  have L1: "1 \<le> uint (len val)" using assms(3,4) by simp
  have "uint (len val - 1) = (uint (len val) - 1) mod 2 ^ 64"
    by (simp add: uint_word_ariths)
  also have "\<dots> = uint (len val) - 1" using L L1 by (intro mod_pos_pos_trivial) simp_all
  finally have ul: "uint (len val - 1) = uint (len val) - 1" .
  have lo: "- (2 ^ 63) \<le> sint x" for x :: "64 word" using sint_ge [of x] by simp
  have sl: "sint (len val - 1) = uint (len val) - 1"
    using ul L uint_sint_64 [of "len val - 1"] lo [of "len val - 1"]
    by (auto split: if_splits)
  have nb: "\<not> len val \<le> b" using ub assms(4) by (simp add: word_le_def)
  have A: "faidx_adjust_position mt 1 c_name b (len val - 1) = Some (val, b, len val - 1)"
    using assms(2,3,4) sl ul nb
    by (simp add: faidx_adjust_position_def Let_def word_sless_alt word_le_def)
  have B: "faidx_adjust_position mt 1 c_name b e = Some (val, b, len val - 1)"
  proof (cases "len val \<le> e")
    case True
    with assms(2,3,4,5) e0 nb show ?thesis
      by (simp add: faidx_adjust_position_def Let_def word_sless_alt)
  next
    case False
    then have "uint e < uint (len val)" by (simp add: word_le_def not_le)
    with assms(5) ue have "uint e = uint (len val - 1)" using ul by simp
    then have "e = len val - 1" by (simp add: word_uint_eq_iff)
    with A show ?thesis by simp
  qed
  show ?thesis using assms(1) A B by (simp add: faidx_reader_fetch_seq_def)
qed

theorem fetch_seq_end_clamped_witness:
  "t_heap (meta t_reader) = Some t_meta \<and> hash t_meta ''s'' = Some t_val
   \<and> 0 \<le> sint (8 :: 64 word) \<and> sint (8 :: 64 word) < uint (len t_val)
   \<and> uint (len t_val) - 1 \<le> sint (300 :: 64 word)
   \<and> faidx_reader_fetch_seq mem_lib mem_alloc t_heap t_reader ''s'' 8 300 =
       faidx_reader_fetch_seq mem_lib mem_alloc t_heap t_reader ''s'' 8 (len t_val - 1)
   \<and> faidx_reader_fetch_seq mem_lib mem_alloc t_heap t_reader ''s'' 8 (len t_val - 1) =
       Some (Inr (Some [65, 67], 2,
                  t_bgzf\<lparr>strm := \<lparr>contents = t_fa, position = 15\<rparr>\<rparr>))"
proof -
  have a: "t_heap (meta t_reader) = Some t_meta" by (simp add: t_heap_def t_reader_def)
  have b: "hash t_meta ''s'' = Some t_val" by (simp add: t_meta_def)
  have c: "0 \<le> sint (8 :: 64 word)" by simp
  have d: "sint (8 :: 64 word) < uint (len t_val)" by (simp add: t_val_def)
  have e: "uint (len t_val) - 1 \<le> sint (300 :: 64 word)" by (simp add: t_val_def)
  have f: "faidx_reader_fetch_seq mem_lib mem_alloc t_heap t_reader ''s'' 8 (len t_val - 1) =
       Some (Inr (Some [65, 67], 2,
                  t_bgzf\<lparr>strm := \<lparr>contents = t_fa, position = 15\<rparr>\<rparr>))"
    by (simp add: fixture_defs fetch_defs Let_def signed_divide_int_def signed_modulo_int_def
        word_sle_eq word_sless_alt word_le_nat_alt upt_rec)
  from fetch_seq_end_clamped [where h = t_heap and reader = t_reader and lib = mem_lib
      and malloc = mem_alloc, OF a b c d e] a b c d e f
  show ?thesis by simp
qed

section \<open>Empty ranges\<close>

lemma smod_bounds:
  assumes "0 < (l::int)"
  shows "- l < k smod l" and "k smod l < l"
proof -
  have "\<bar>k\<bar> mod l < l" "0 \<le> \<bar>k\<bar> mod l" using assms by simp_all
  then show "- l < k smod l" "k smod l < l"
    by (auto simp: signed_modulo_int_def sgn_if)
qed

lemma firstline_blen_pos:
  assumes "line_blen val \<noteq> 0" and "c_mod x (ucast (line_blen val)) = Some r"
  shows "0 < sint (ucast (line_blen val) - r)"
proof -
  let ?l = "uint (line_blen val)"
  have pos: "0 < ?l"
    using assms(1) uint_ge_0 [of "line_blen val"] uint_0_iff [of "line_blen val"] by linarith
  have l32: "?l < 2 ^ 32" using uint_lt2p [of "line_blen val"] by simp
  from assms have r: "r = word_of_int (sint x smod ?l)"
    by (simp add: c_mod_def ucast_32_64_eq_0 sint_ucast_32_64)
  have "(ucast (line_blen val) :: 64 word) = word_of_int ?l"
    by (simp add: word_of_int_uint flip: uint_ucast_32_64)
  with r have eq: "ucast (line_blen val) - r = (word_of_int (?l - sint x smod ?l) :: 64 word)"
    by simp
  have lo: "0 < ?l - sint x smod ?l" using smod_bounds(2) [OF pos, of "sint x"] by simp
  have hi: "?l - sint x smod ?l < 2 ^ 63"
    using smod_bounds(1) [OF pos, of "sint x"] l32 by simp
  have "sint (word_of_int (?l - sint x smod ?l) :: 64 word) = ?l - sint x smod ?l"
    using lo hi by (intro sint_word_of_int_64) simp_all
  with lo show ?thesis unfolding eq by simp
qed

lemma fai_retrieve_empty:
  assumes "line_blen val \<noteq> 0" and "line_blen val \<le> line_len val"
    and "seek_target val offset x = Inr t"
    and "bgzf_useek lib d t = (d1, ret)" and "0 \<le> ret"
    and "malloc (ucast (line_len val) - ucast (line_blen val) + 1) = Some buffer"
    and "bgzf_read lib d1 0 = (d2, RdOk [])"
  shows "fai_retrieve lib malloc d val offset x x = Some (Inr (Some [], 0, d2))"
proof -
  obtain r where r: "c_mod x (ucast (line_blen val)) = Some r"
    using assms(1) by (auto simp: c_mod_def ucast_32_64_eq_0)
  have fl: "0 \<le>s ucast (line_blen val) - r"
    using firstline_blen_pos [OF assms(1) r] by (simp add: word_sle_eq)
  define k where "k = uint (line_len val) - uint (line_blen val) + 1"
  have "uint (line_blen val) \<le> uint (line_len val)" using assms(2) by (simp add: word_le_def)
  then have k0: "0 < k" by (simp add: k_def)
  have "uint (line_len val) < 4294967296" using uint_lt2p [of "line_len val"] by simp
  moreover have "0 \<le> uint (line_blen val)" by simp
  ultimately have "k < 18446744073709551616" unfolding k_def by linarith
  then have k1: "k < 2 ^ 64" by simp
  have "uint (ucast (line_len val) - ucast (line_blen val) + 1 :: 64 word) = k mod 2 ^ 64"
    by (simp add: uint_word_ariths uint_ucast_32_64 mod_simps k_def)
  also have "\<dots> = k" using k0 k1 by (intro mod_pos_pos_trivial) simp_all
  finally have "0 < uint (ucast (line_len val) - ucast (line_blen val) + 1 :: 64 word)"
    using k0 by simp
  moreover have "unat (ucast (line_len val) - ucast (line_blen val) + 1 :: 64 word)
      = nat (uint (ucast (line_len val) - ucast (line_blen val) + 1 :: 64 word))"
    by (rule unat_nat_uint_64)
  ultimately have cap: "\<not> unat (ucast (line_len val) - ucast (line_blen val) + 1 :: 64 word) \<le> 0"
    by linarith
  have "fai_retrieve lib malloc d val offset x x = retrieve_body lib malloc d1 val x x"
    using assms(1,3,4,5) by (simp add: fai_retrieve_def SIZE_MAX_def)
  also have "\<dots> = retrieve_one_line lib d1 buffer
      (unat (ucast (line_len val) - ucast (line_blen val) + 1 :: 64 word)) 0"
    using assms(6) r fl by (simp add: retrieve_body_def)
  also have "\<dots> = Some (Inr (Some [], 0, d2))"
    using assms(7) cap by (simp add: retrieve_one_line_def c_string_def)
  finally show ?thesis .
qed

lemma retrieve_last_line_len:
  "retrieve_last_line lib cap c d buffer s remaining = Some (Inr (Some bs, l, d')) \<Longrightarrow> l = c"
  by (auto simp: retrieve_last_line_def split: if_splits prod.splits)

lemma retrieve_body_len:
  assumes "retrieve_body lib malloc d val b e = Some (Inr (Some bs, l, d'))"
  shows "l = e - b"
proof -
  from assms obtain buffer r where
    *: "(if e - b \<le>s ucast (line_blen val) - r
        then retrieve_one_line lib d buffer
               (unat (e - b + ucast (line_len val) - ucast (line_blen val) + 1)) (e - b)
        else retrieve_lines lib val d buffer
               (unat (e - b + ucast (line_len val) - ucast (line_blen val) + 1)) r (e - b))
        = Some (Inr (Some bs, l, d'))"
    by (auto simp: retrieve_body_def Let_def split: option.splits)
  show ?thesis
  proof (cases "e - b \<le>s ucast (line_blen val) - r")
    case True
    with * show ?thesis
      by (auto simp: retrieve_one_line_def split: prod.splits if_splits)
  next
    case False
    with * have "retrieve_lines lib val d buffer
               (unat (e - b + ucast (line_len val) - ucast (line_blen val) + 1)) r (e - b)
        = Some (Inr (Some bs, l, d'))" by simp
    then show ?thesis
      by (auto simp: retrieve_lines_def Let_def
          split: prod.splits if_splits option.splits sum.splits
          dest: retrieve_last_line_len)
  qed
qed

lemma fai_retrieve_len:
  assumes "fai_retrieve lib malloc d val offset b e = Some (Inr (Some bs, l, d'))"
  shows "l = e - b"
  using assms
  by (auto simp: fai_retrieve_def split: if_splits sum.splits prod.splits
      dest: retrieve_body_len)

text \<open>
  Claim C3, amended. For a sequence of length \<open>L\<close> in the table, a begin above \<open>L\<close>
  and an end of at least \<open>L\<close>, \<^verbatim>\<open>faidx_adjust_position\<close> clamps the begin to \<open>L\<close> and
  the end to \<open>L - 1\<close>, and \<^verbatim>\<open>faidx_reader_fetch_seq\<close> returns no bytes and length 0,
  provided the retrieval of the empty range does not fail: \<^verbatim>\<open>line_blen\<close> is neither zero
  nor above \<^verbatim>\<open>line_len\<close>, the seek succeeds, the buffer is allocated and the read of
  zero bytes stores nothing.
\<close>

theorem fetch_seq_begin_past_end:
  assumes "h (meta reader) = Some mt" and "hash mt c_name = Some val"
    and "uint (len val) < sint pb" and "uint (len val) \<le> sint pe"
    and "line_blen val \<noteq> 0" and "line_blen val \<le> line_len val"
    and "seek_target val (seq_offset val) (len val) = Inr t"
    and "bgzf_useek lib (bgzf reader) t = (d1, ret)" and "0 \<le> ret"
    and "malloc (ucast (line_len val) - ucast (line_blen val) + 1) = Some buffer"
    and "bgzf_read lib d1 0 = (d2, RdOk [])"
  shows "faidx_adjust_position mt 1 c_name pb pe = Some (val, len val, len val - 1)
         \<and> faidx_reader_fetch_seq lib malloc h reader c_name pb pe = Some (Inr (Some [], 0, d2))"
proof -
  have pb0: "0 \<le> sint pb" using assms(3) uint_ge_0 [of "len val"] by linarith
  have pe0: "0 \<le> sint pe" using assms(4) uint_ge_0 [of "len val"] by linarith
  have upb: "uint pb = sint pb" using pb0 uint_sint_64 [of pb] by simp
  have upe: "uint pe = sint pe" using pe0 uint_sint_64 [of pe] by simp
  have A: "faidx_adjust_position mt 1 c_name pb pe = Some (val, len val, len val - 1)"
    using assms(2,3,4) upb upe pb0 pe0
    by (simp add: faidx_adjust_position_def Let_def word_sless_alt word_le_def)
  have "faidx_reader_fetch_seq lib malloc h reader c_name pb pe =
        fai_retrieve lib malloc (bgzf reader) val (seq_offset val) (len val) (len val)"
    using assms(1) A by (simp add: faidx_reader_fetch_seq_def)
  also have "\<dots> = Some (Inr (Some [], 0, d2))"
    by (rule fai_retrieve_empty [where malloc = malloc, OF assms(5-11)])
  finally show ?thesis using A by simp
qed

theorem fetch_seq_begin_past_end_witness:
  "t_heap (meta t_reader) = Some t_meta \<and> hash t_meta ''s'' = Some t_val
   \<and> uint (len t_val) < sint (20 :: 64 word) \<and> uint (len t_val) \<le> sint (30 :: 64 word)
   \<and> line_blen t_val \<noteq> 0 \<and> line_blen t_val \<le> line_len t_val
   \<and> seek_target t_val (seq_offset t_val) (len t_val) = Inr 15
   \<and> bgzf_useek mem_lib (bgzf t_reader) 15
         = (t_bgzf\<lparr>strm := \<lparr>contents = t_fa, position = 15\<rparr>\<rparr>, 0)
   \<and> mem_alloc (ucast (line_len t_val) - ucast (line_blen t_val) + 1) = Some (\<lambda>i. 0)
   \<and> bgzf_read mem_lib (t_bgzf\<lparr>strm := \<lparr>contents = t_fa, position = 15\<rparr>\<rparr>) 0
         = (t_bgzf\<lparr>strm := \<lparr>contents = t_fa, position = 15\<rparr>\<rparr>, RdOk [])
   \<and> faidx_adjust_position t_meta 1 ''s'' 20 30 = Some (t_val, len t_val, len t_val - 1)
   \<and> faidx_reader_fetch_seq mem_lib mem_alloc t_heap t_reader ''s'' 20 30
         = Some (Inr (Some [], 0, t_bgzf\<lparr>strm := \<lparr>contents = t_fa, position = 15\<rparr>\<rparr>))"
proof -
  have a: "t_heap (meta t_reader) = Some t_meta" by (simp add: t_heap_def t_reader_def)
  have b: "hash t_meta ''s'' = Some t_val" by (simp add: t_meta_def)
  have c: "uint (len t_val) < sint (20 :: 64 word)" by (simp add: t_val_def)
  have d: "uint (len t_val) \<le> sint (30 :: 64 word)" by (simp add: t_val_def)
  have e: "line_blen t_val \<noteq> 0" by (simp add: t_val_def)
  have f: "line_blen t_val \<le> line_len t_val" by (simp add: t_val_def word_le_nat_alt)
  have g: "seek_target t_val (seq_offset t_val) (len t_val) = Inr 15"
    by (simp add: seek_target_def c_div_def c_mod_def t_val_def signed_divide_int_def
        signed_modulo_int_def)
  have h: "bgzf_useek mem_lib (bgzf t_reader) 15
         = (t_bgzf\<lparr>strm := \<lparr>contents = t_fa, position = 15\<rparr>\<rparr>, 0)"
    by (simp add: mem_lib_def t_reader_def t_bgzf_def word_sless_alt)
  have i: "(0::int) \<le> 0" by simp
  have j: "mem_alloc (ucast (line_len t_val) - ucast (line_blen t_val) + 1) = Some (\<lambda>i. 0)"
    by (simp add: mem_alloc_def)
  have k: "bgzf_read mem_lib (t_bgzf\<lparr>strm := \<lparr>contents = t_fa, position = 15\<rparr>\<rparr>) 0
         = (t_bgzf\<lparr>strm := \<lparr>contents = t_fa, position = 15\<rparr>\<rparr>, RdOk [])"
    by (simp add: mem_lib_def t_bgzf_def)
  from fetch_seq_begin_past_end [where h = t_heap and reader = t_reader and lib = mem_lib
      and malloc = mem_alloc, OF a b c d e f g h i j k] a b c d e f g h j k
  show ?thesis by simp
qed

text \<open>
  The claim as it stands fails for an end below \<open>L\<close>: line 517 moves the begin down to
  the end, and the call returns the base there. On the ten bases of \<^verbatim>\<open>t.fa\<close>, begin 20
  and end 5 give the one byte \<^verbatim>\<open>C\<close> and length 1.
\<close>

theorem fetch_seq_begin_past_end_counterexample:
  "faidx_reader_fetch_seq mem_lib mem_alloc t_heap t_reader ''s'' 20 5 =
     Some (Inr (Some [67], 1, t_bgzf\<lparr>strm := \<lparr>contents = t_fa, position = 10\<rparr>\<rparr>))"
  by (simp add: fixture_defs fetch_defs Let_def signed_divide_int_def signed_modulo_int_def
        word_sle_eq word_sless_alt word_le_nat_alt upt_rec)

text \<open>
  Claim C2, amended. For a sequence of length \<open>L\<close> in the table and a position \<open>b\<close>
  above the least \<^verbatim>\<open>int64_t\<close>, the call with begin \<open>b\<close> and end \<open>b - 1\<close> has its begin
  moved to the end by line 517. For \<open>b > L\<close> it is the retrieval of the empty range at
  \<open>L\<close>, and a call that returns a buffer leaves length 0. For \<open>b \<le> L\<close> it is the
  retrieval of the one base at \<open>b - 1\<close> (at 0 when \<open>b \<le> 0\<close>), and a call that returns
  a buffer leaves length 1.
\<close>

theorem fetch_seq_end_before_begin:
  assumes "h (meta reader) = Some mt" and "hash mt c_name = Some val"
    and "- (2 ^ 63) < sint b"
  shows "faidx_reader_fetch_seq lib malloc h reader c_name b (b - 1) =
           (if uint (len val) < sint b
            then fai_retrieve lib malloc (bgzf reader) val (seq_offset val) (len val) (len val)
            else if sint b \<le> 0
            then fai_retrieve lib malloc (bgzf reader) val (seq_offset val) 0 1
            else fai_retrieve lib malloc (bgzf reader) val (seq_offset val) (b - 1) b)
         \<and> (\<forall>bs l d. faidx_reader_fetch_seq lib malloc h reader c_name b (b - 1)
                        = Some (Inr (Some bs, l, d))
                \<longrightarrow> l = (if uint (len val) < sint b then 0 else 1))"
proof -
  have hi: "sint b < 2 ^ 63" using sint_lt [of b] by simp
  have "b - 1 = word_of_int (sint b - 1)" by simp
  moreover have "sint (word_of_int (sint b - 1) :: 64 word) = sint b - 1"
    using assms(3) hi by (intro sint_word_of_int_64) simp_all
  ultimately have s1: "sint (b - 1) = sint b - 1" by simp
  have lt: "b - 1 <s b" using s1 by (simp add: word_sless_alt)
  have A: "faidx_adjust_position mt 1 c_name b (b - 1) =
           Some (if uint (len val) < sint b then (val, len val, len val - 1)
                 else if sint b \<le> 0 then (val, 0, 0) else (val, b - 1, b - 1))"
  proof (cases "sint b \<le> 0")
    case True
    then have "b - 1 <s 0" using s1 by (simp add: word_sless_alt)
    moreover have "\<not> uint (len val) < sint b" using True uint_ge_0 [of "len val"] by linarith
    ultimately show ?thesis
      using assms(2) lt True by (simp add: faidx_adjust_position_def Let_def)
  next
    case False
    then have n0: "\<not> b - 1 <s 0" using s1 by (simp add: word_sless_alt)
    have u1: "uint (b - 1) = sint b - 1" using False s1 uint_sint_64 [of "b - 1"] by simp
    show ?thesis
      using assms(2) lt n0 u1 False
      by (auto simp: faidx_adjust_position_def Let_def word_le_def)
  qed
  have B: "faidx_reader_fetch_seq lib malloc h reader c_name b (b - 1) =
           (if uint (len val) < sint b
            then fai_retrieve lib malloc (bgzf reader) val (seq_offset val) (len val) (len val)
            else if sint b \<le> 0
            then fai_retrieve lib malloc (bgzf reader) val (seq_offset val) 0 1
            else fai_retrieve lib malloc (bgzf reader) val (seq_offset val) (b - 1) b)"
    using assms(1) A by (simp add: faidx_reader_fetch_seq_def)
  have C: "l = (if uint (len val) < sint b then 0 else 1)"
    if "faidx_reader_fetch_seq lib malloc h reader c_name b (b - 1) = Some (Inr (Some bs, l, d))"
    for bs l d
    using that unfolding B by (auto split: if_splits dest!: fai_retrieve_len)
  from B C show ?thesis by blast
qed

theorem fetch_seq_end_before_begin_witness:
  "t_heap (meta t_reader) = Some t_meta \<and> hash t_meta ''s'' = Some t_val
   \<and> - (2 ^ 63) < sint (20 :: 64 word) \<and> uint (len t_val) < sint (20 :: 64 word)
   \<and> faidx_reader_fetch_seq mem_lib mem_alloc t_heap t_reader ''s'' 20 (20 - 1)
        = fai_retrieve mem_lib mem_alloc (bgzf t_reader) t_val (seq_offset t_val)
            (len t_val) (len t_val)
   \<and> faidx_reader_fetch_seq mem_lib mem_alloc t_heap t_reader ''s'' 20 (20 - 1)
        = Some (Inr (Some [], 0, t_bgzf\<lparr>strm := \<lparr>contents = t_fa, position = 15\<rparr>\<rparr>))"
proof -
  have a: "t_heap (meta t_reader) = Some t_meta" by (simp add: t_heap_def t_reader_def)
  have b: "hash t_meta ''s'' = Some t_val" by (simp add: t_meta_def)
  have c: "- (2 ^ 63) < sint (20 :: 64 word)" by simp
  have d: "uint (len t_val) < sint (20 :: 64 word)" by (simp add: t_val_def)
  have f: "faidx_reader_fetch_seq mem_lib mem_alloc t_heap t_reader ''s'' 20 (20 - 1)
        = Some (Inr (Some [], 0, t_bgzf\<lparr>strm := \<lparr>contents = t_fa, position = 15\<rparr>\<rparr>))"
    by (simp add: fixture_defs fetch_defs Let_def signed_divide_int_def signed_modulo_int_def
        word_sle_eq word_sless_alt word_le_nat_alt)
  from fetch_seq_end_before_begin [where h = t_heap and reader = t_reader and lib = mem_lib
      and malloc = mem_alloc, OF a b c] d
  have g: "faidx_reader_fetch_seq mem_lib mem_alloc t_heap t_reader ''s'' 20 (20 - 1)
        = fai_retrieve mem_lib mem_alloc (bgzf t_reader) t_val (seq_offset t_val)
            (len t_val) (len t_val)"
    by simp
  from a b c d f g show ?thesis by simp
qed

text \<open>
  The claim as it stands fails at \<open>b = 1\<close> on \<^verbatim>\<open>t.fa\<close>: the call with begin 1 and
  end 0 returns the one byte \<^verbatim>\<open>A\<close> and length 1.
\<close>

theorem fetch_seq_end_before_begin_counterexample:
  "faidx_reader_fetch_seq mem_lib mem_alloc t_heap t_reader ''s'' 1 (1 - 1) =
     Some (Inr (Some [65], 1, t_bgzf\<lparr>strm := \<lparr>contents = t_fa, position = 4\<rparr>\<rparr>))"
  by (simp add: fixture_defs fetch_defs Let_def signed_divide_int_def signed_modulo_int_def
        word_sle_eq word_sless_alt word_le_nat_alt upt_rec)

section \<open>The retrieval returns\<close>

text \<open>
  The loop over the complete lines ends whenever \<^verbatim>\<open>line_blen\<close> is not zero, since
  \<^verbatim>\<open>remaining\<close> goes down by \<^verbatim>\<open>line_blen\<close> in each round; and as the second guard
  refuses \<^verbatim>\<open>line_blen = 0\<close>, \<^verbatim>\<open>fai_retrieve\<close> returns on every input.
\<close>

lemma read_lines_returns:
  assumes "line_blen val \<noteq> 0"
  shows "\<exists>y. read_lines lib val cap d buffer s remaining = Some y"
proof (induction "nat (sint remaining)" arbitrary: d buffer s remaining rule: less_induct)
  case less
  show ?case
  proof (cases "uint (line_blen val) < sint remaining")
    case False
    then show ?thesis by (subst read_lines.simps) simp
  next
    case True
    have pos: "0 < uint (line_blen val)"
      using assms uint_ge_0 [of "line_blen val"] uint_0_iff [of "line_blen val"] by linarith
    have hi: "sint remaining < 2 ^ 63" using sint_lt [of remaining] by simp
    have "remaining - ucast (line_blen val)
            = word_of_int (sint remaining - uint (line_blen val))"
      by (simp add: word_of_int_uint flip: uint_ucast_32_64)
    moreover have "sint (word_of_int (sint remaining - uint (line_blen val)) :: 64 word)
            = sint remaining - uint (line_blen val)"
      using True pos hi by (intro sint_word_of_int_64) simp_all
    ultimately have "sint (remaining - ucast (line_blen val))
            = sint remaining - uint (line_blen val)" by simp
    with True pos have dec: "nat (sint (remaining - ucast (line_blen val))) < nat (sint remaining)"
      by simp
    obtain d' r where rd: "bgzf_read lib d (ucast (line_len val)) = (d', r)"
      by (cases "bgzf_read lib d (ucast (line_len val))")
    from less [OF dec, of d' "write_at buffer s (rd_bytes r)" "s + unat (line_blen val)"]
    obtain y where "read_lines lib val cap d' (write_at buffer s (rd_bytes r))
                      (s + unat (line_blen val)) (remaining - ucast (line_blen val)) = Some y"
      by blast
    with True rd show ?thesis by (subst read_lines.simps) simp
  qed
qed

lemma retrieve_lines_returns:
  assumes "line_blen val \<noteq> 0"
  shows "retrieve_lines lib val d buffer cap r remaining \<noteq> None"
proof -
  obtain d' r1 where rd: "bgzf_read lib d (ucast (line_len val) - r) = (d', r1)"
    by (cases "bgzf_read lib d (ucast (line_len val) - r)")
  obtain y where y: "read_lines lib val cap d' (write_at buffer 0 (rd_bytes r1))
                  (unat (ucast (line_blen val) - r)) (remaining - (ucast (line_blen val) - r))
                  = Some y"
    using read_lines_returns [OF assms, of lib cap d' "write_at buffer 0 (rd_bytes r1)"
        "unat (ucast (line_blen val) - r)" "remaining - (ucast (line_blen val) - r)"]
    by blast
  show ?thesis
    using rd y
    by (auto simp: retrieve_lines_def Let_def retrieve_last_line_def
        split: sum.splits option.splits prod.splits)
qed

lemma fai_retrieve_returns:
  "fai_retrieve lib malloc d val offset b e \<noteq> None"
proof (cases "line_blen val = 0")
  case True
  then show ?thesis by (simp add: fai_retrieve_def)
next
  case False
  have body: "retrieve_body lib malloc d' val b e \<noteq> None" for d'
    using retrieve_lines_returns [OF False]
    by (auto simp: retrieve_body_def Let_def retrieve_one_line_def
        split: option.splits prod.splits)
  show ?thesis
    using body
    by (auto simp: fai_retrieve_def split: sum.splits prod.splits)
qed

text \<open>
  A range over all three lines of \<^verbatim>\<open>t.fa\<close>: the bases 1 to 9 come back without the
  line terminators.
\<close>

lemma fetch_seq_over_lines:
  "faidx_reader_fetch_seq mem_lib mem_alloc t_heap t_reader ''s'' 1 9 =
     Some (Inr (Some [67, 71, 84, 65, 67, 71, 84, 65, 67], 9,
                t_bgzf\<lparr>strm := \<lparr>contents = t_fa, position = 15\<rparr>\<rparr>))"
  by (simp add: fixture_defs fetch_defs read_lines.simps Let_def signed_divide_int_def
      signed_modulo_int_def word_sle_eq word_sless_alt word_le_nat_alt upt_rec)

text \<open>
  A range of two bases on either side of a line terminator, and a name that is not in
  the table.
\<close>

lemma fetch_seq_across_terminator:
  "faidx_reader_fetch_seq mem_lib mem_alloc t_heap t_reader ''s'' 3 4 =
     Some (Inr (Some [84, 65], 2, t_bgzf\<lparr>strm := \<lparr>contents = t_fa, position = 9\<rparr>\<rparr>))"
  by (simp add: fixture_defs fetch_defs read_lines.simps Let_def signed_divide_int_def
      signed_modulo_int_def word_sle_eq word_sless_alt word_le_nat_alt upt_rec)

lemma fetch_seq_unknown_name:
  "faidx_reader_fetch_seq mem_lib mem_alloc t_heap t_reader ''x'' 0 3 =
     Some (Inr (None, - 2, t_bgzf))"
  by (simp add: fixture_defs fetch_defs)

section \<open>Reference counting\<close>

lemma sint_count:
  "0 \<le> c \<Longrightarrow> c \<le> INT_MAX \<Longrightarrow> sint (word_of_int c :: 32 word) = c"
  by (simp add: INT_MAX_def sint_sbintrunc' signed_take_bit_int_eq_self)

lemma sint_count_pred:
  assumes "1 \<le> c" and "c \<le> INT_MAX"
  shows "sint (word_of_int c - 1 :: 32 word) = c - 1"
  using sint_count [of "c - 1"] assms by simp

lemma faidx_meta_load_ref_count:
  "faidx_meta_load env filename fmt flags = Inr (Some mt) \<Longrightarrow> ref_count mt = 1"
  by (auto simp: faidx_meta_load_def Let_def split: option.splits if_splits sum.splits)

lemma reader_create_cases:
  assumes "h a = Some mt"
  shows "faidx_reader_create calloc_ok bgzf_open (Some a) h =
           (if \<not> calloc_ok then Inr (None, h)
            else case bgzf_open (fasta_path mt) of
                   None \<Rightarrow> (if ref_count mt \<le>s 0 then Inr (None, h(a := None)) else Inr (None, h))
                 | Some fp \<Rightarrow>
                     Inr (Some \<lparr> meta = a,
                                 bgzf = (if is_bgzf mt then fp\<lparr>idx := bgzf_idx mt\<rparr> else fp) \<rparr>,
                          h(a \<mapsto> mt\<lparr>ref_count := ref_count mt + 1\<rparr>)))"
proof -
  have idem: "h(a \<mapsto> mt) = h" using assms by (rule fun_upd_idem)
  show ?thesis
    using assms idem
    by (auto simp: faidx_reader_create_def faidx_meta_ref_def faidx_meta_destroy_def
        bgzf_open_shared_idx_def Let_def split: option.splits)
qed

lemma client_step_counted:
  assumes "client_step a x (h, rs) = Inr (h', rs')"
    and "counted m0 a c h" and "\<forall>r \<in> set rs. meta r = a"
    and "c + balance (length rs) [x] \<le> INT_MAX"
  shows "counted m0 a (c + balance (length rs) [x]) h' \<and> (\<forall>r \<in> set rs'. meta r = a)
         \<and> balance (length rs) (x # xs) = balance (length rs) [x] + balance (length rs') xs"
proof (cases "c = 0")
  case True
  with assms show ?thesis
    by (cases x; cases rs)
      (auto simp: counted_def faidx_meta_ref_def faidx_meta_destroy_def faidx_reader_create_def
        faidx_reader_destroy_def split: option.splits if_splits)
next
  case False
  with assms(2) have live: "h a = Some (m0\<lparr>ref_count := word_of_int c\<rparr>)"
    and c: "1 \<le> c" "c \<le> INT_MAX"
    by (auto simp: counted_def)
  have s0: "sint (word_of_int c :: 32 word) = c" using c by (intro sint_count) simp_all
  have s1: "sint (word_of_int c - 1 :: 32 word) = c - 1" using c by (rule sint_count_pred)
  have z: "(word_of_int c - 1 :: 32 word) \<le>s 0 \<longleftrightarrow> c = 1"
    using s1 c by (auto simp: word_sle_eq)
  have nz: "\<not> (word_of_int c :: 32 word) \<le>s 0"
    using s0 c by (simp add: word_sle_eq)
  show ?thesis
  proof (cases x)
    case Ref
    with assms(1,3,4) live c show ?thesis
      by (auto simp: counted_def faidx_meta_ref_def)
  next
    case Unref
    with assms(1,3) live c z show ?thesis
      by (auto simp: counted_def faidx_meta_destroy_def Let_def)
  next
    case (Create calloc_ok opened)
    note rc = reader_create_cases [where h = h and a = a and calloc_ok = calloc_ok
        and bgzf_open = "\<lambda>path. opened", OF live]
    from assms(1,3,4) Create c live nz show ?thesis
      by (auto simp: rc counted_def split: option.splits if_splits)
  next
    case Destroy
    show ?thesis
    proof (cases rs)
      case Nil
      with assms Destroy show ?thesis by auto
    next
      case rs: (Cons r rs0)
      with assms(3) have "meta r = a" by simp
      with assms(1,3) Destroy rs live c z show ?thesis
        by (auto simp: counted_def faidx_reader_destroy_def faidx_meta_destroy_def Let_def)
    qed
  qed
qed

lemma client_run_counted:
  assumes "client_run a ops (h, rs) = Inr (h', rs')"
    and "counted m0 a c h" and "\<forall>r \<in> set rs. meta r = a"
    and "\<forall>i \<le> length ops. c + balance (length rs) (take i ops) \<le> INT_MAX"
  shows "counted m0 a (c + balance (length rs) ops) h'"
  using assms
proof (induction ops arbitrary: h rs c)
  case Nil
  then show ?case by simp
next
  case (Cons x xs)
  note prems = Cons.prems and IH = Cons.IH
  from prems(1) obtain h1 rs1 where
    step: "client_step a x (h, rs) = Inr (h1, rs1)"
    and run: "client_run a xs (h1, rs1) = Inr (h', rs')"
    by (auto split: sum.splits)
  from prems(4) have "c + balance (length rs) (take (Suc 0) (x # xs)) \<le> INT_MAX"
    by (metis Suc_leI length_Cons zero_less_Suc)
  then have b1: "c + balance (length rs) [x] \<le> INT_MAX" by simp
  have 1: "counted m0 a (c + balance (length rs) [x]) h1"
    and 2: "\<forall>r \<in> set rs1. meta r = a"
    using client_step_counted [OF step prems(2,3) b1, of "[]"] by blast+
  have 3: "balance (length rs) (x # ys) = balance (length rs) [x] + balance (length rs1) ys"
    for ys
    using client_step_counted [OF step prems(2,3) b1, of ys] by blast
  have 4: "\<forall>i \<le> length xs. c + balance (length rs) [x] + balance (length rs1) (take i xs) \<le> INT_MAX"
  proof (intro allI impI)
    fix i assume "i \<le> length xs"
    then have "Suc i \<le> length (x # xs)" by simp
    with prems(4) have "c + balance (length rs) (take (Suc i) (x # xs)) \<le> INT_MAX" by blast
    with 3 [of "take i xs"]
    show "c + balance (length rs) [x] + balance (length rs1) (take i xs) \<le> INT_MAX" by simp
  qed
  from IH [OF run 1 2 4] 3 [of xs] show ?case by (simp add: add.assoc)
qed

text \<open>
  A run of \<open>k\<close> calls of \<^verbatim>\<open>faidx_meta_ref\<close> on an object in the store adds \<open>k\<close> to
  the 32-bit \<^verbatim>\<open>ref_count\<close>.
\<close>

lemma client_run_refs:
  assumes "h a = Some mt"
  shows "client_run a (replicate k Ref @ ops) (h, rs) =
           client_run a ops (h(a \<mapsto> mt\<lparr>ref_count := ref_count mt + of_nat k\<rparr>), rs)"
  using assms
proof (induction k arbitrary: h mt)
  case 0
  then have "h(a \<mapsto> mt) = h" by (rule fun_upd_idem)
  then show ?case by simp
next
  case (Suc k)
  let ?m1 = "mt\<lparr>ref_count := ref_count mt + 1\<rparr>"
  let ?h1 = "h(a \<mapsto> ?m1)"
  have step: "client_run a (replicate (Suc k) Ref @ ops) (h, rs)
        = client_run a (replicate k Ref @ ops) (?h1, rs)"
    using Suc.prems by (simp add: faidx_meta_ref_def)
  have h1: "?h1 a = Some ?m1" by simp
  have run: "client_run a (replicate k Ref @ ops) (?h1, rs)
        = client_run a ops (?h1(a \<mapsto> ?m1\<lparr>ref_count := ref_count ?m1 + of_nat k\<rparr>), rs)"
    by (rule Suc.IH [where h = "?h1" and mt = "?m1", OF h1])
  have eq: "?h1(a \<mapsto> ?m1\<lparr>ref_count := ref_count ?m1 + of_nat k\<rparr>)
        = h(a \<mapsto> mt\<lparr>ref_count := ref_count mt + of_nat (Suc k)\<rparr>)"
    by (simp add: ac_simps)
  show ?case unfolding step run eq ..
qed

lemma balance_refs: "balance j (replicate k Ref @ ops) = int k + balance j ops"
  by (induction k) simp_all

text \<open>
  Claim C5, amended. Take an object \<open>m0\<close> that \<^verbatim>\<open>faidx_meta_load\<close> has just returned, at
  address \<open>a\<close>, and any sequence of \<^verbatim>\<open>faidx_meta_ref\<close>, \<^verbatim>\<open>faidx_meta_destroy\<close>,
  \<^verbatim>\<open>faidx_reader_create\<close> and \<^verbatim>\<open>faidx_reader_destroy\<close> that runs without touching freed
  memory and never holds more than \<^verbatim>\<open>INT_MAX\<close> references at once. The object starts with
  \<^verbatim>\<open>ref_count = 1\<close>. Afterwards the count is 1 plus one for each reference taken less
  one for each given back, and never negative; the object is out of the store exactly
  when that count is zero, and while it is in the store \<^verbatim>\<open>ref_count\<close> holds that count
  and every other field is as loaded. In the state reached, one more \<^verbatim>\<open>faidx_meta_ref\<close>
  changes nothing but \<^verbatim>\<open>ref_count\<close> and, below \<^verbatim>\<open>INT_MAX\<close>, adds exactly 1 to it;
  one more \<^verbatim>\<open>faidx_meta_destroy\<close> frees the object when the count is 1 and otherwise
  subtracts exactly 1 and changes nothing else.
\<close>

theorem refcount_protocol:
  assumes "faidx_meta_load env filename fmt flags = Inr (Some m0)"
    and "client_run a ops ([a \<mapsto> m0], []) = Inr (h, rs)"
    and "\<forall>i \<le> length ops. 1 + balance 0 (take i ops) \<le> INT_MAX"
  shows "ref_count m0 = 1 \<and> 0 \<le> 1 + balance 0 ops
         \<and> h a = (if 1 + balance 0 ops = 0 then None
                  else Some (m0\<lparr>ref_count := word_of_int (1 + balance 0 ops)\<rparr>))
         \<and> (\<forall>mt. h a = Some mt \<longrightarrow>
               sint (ref_count mt) = 1 + balance 0 ops
               \<and> faidx_meta_ref (Some a) h
                   = Inr (Some a, h(a \<mapsto> mt\<lparr>ref_count := ref_count mt + 1\<rparr>))
               \<and> (1 + balance 0 ops < INT_MAX \<longrightarrow>
                    sint (ref_count mt + 1) = sint (ref_count mt) + 1)
               \<and> faidx_meta_destroy (Some a) h
                   = Inr (if sint (ref_count mt) = 1 then h(a := None)
                          else h(a \<mapsto> mt\<lparr>ref_count := ref_count mt - 1\<rparr>))
               \<and> sint (ref_count mt - 1) = sint (ref_count mt) - 1)"
proof -
  let ?c = "1 + balance 0 ops"
  have rc: "ref_count m0 = 1" by (rule faidx_meta_load_ref_count [OF assms(1)])
  then have "m0\<lparr>ref_count := 1\<rparr> = m0" by simp
  then have "counted m0 a 1 [a \<mapsto> m0]" by (simp add: counted_def INT_MAX_def)
  from client_run_counted [OF assms(2) this] assms(3)
  have c: "counted m0 a ?c h" by simp
  then have 1: "0 \<le> ?c" and b: "?c \<le> INT_MAX"
    and 2: "h a = (if ?c = 0 then None else Some (m0\<lparr>ref_count := word_of_int ?c\<rparr>))"
    by (simp_all add: counted_def)
  have 3: "sint (ref_count mt) = ?c
           \<and> faidx_meta_ref (Some a) h
               = Inr (Some a, h(a \<mapsto> mt\<lparr>ref_count := ref_count mt + 1\<rparr>))
           \<and> (?c < INT_MAX \<longrightarrow> sint (ref_count mt + 1) = sint (ref_count mt) + 1)
           \<and> faidx_meta_destroy (Some a) h
               = Inr (if sint (ref_count mt) = 1 then h(a := None)
                      else h(a \<mapsto> mt\<lparr>ref_count := ref_count mt - 1\<rparr>))
           \<and> sint (ref_count mt - 1) = sint (ref_count mt) - 1"
    if live: "h a = Some mt" for mt
  proof -
    from live 1 2 have pos: "1 \<le> ?c" and mt: "mt = m0\<lparr>ref_count := word_of_int ?c\<rparr>"
      by (auto split: if_splits)
    have s0: "sint (ref_count mt) = ?c"
      unfolding mt using sint_count [OF 1 b] by simp
    have s1: "sint (ref_count mt - 1) = ?c - 1"
      unfolding mt using sint_count_pred [OF pos b] by simp
    have s2: "sint (ref_count mt + 1) = ?c + 1" if "?c < INT_MAX"
    proof -
      have "sint (word_of_int (?c + 1) :: 32 word) = ?c + 1"
        using 1 that by (intro sint_count) simp_all
      then show ?thesis unfolding mt by simp
    qed
    have d: "faidx_meta_destroy (Some a) h
               = Inr (if sint (ref_count mt) = 1 then h(a := None)
                      else h(a \<mapsto> mt\<lparr>ref_count := ref_count mt - 1\<rparr>))"
      using live s0 s1 pos by (auto simp: faidx_meta_destroy_def Let_def word_sle_eq)
    have r: "faidx_meta_ref (Some a) h
               = Inr (Some a, h(a \<mapsto> mt\<lparr>ref_count := ref_count mt + 1\<rparr>))"
      using live by (simp add: faidx_meta_ref_def)
    from s0 s1 s2 d r show ?thesis by simp
  qed
  from rc 1 2 3 show ?thesis by blast
qed

lemma balance_le_length: "balance k ops \<le> int (length ops)"
proof (induction ops arbitrary: k)
  case Nil
  show ?case by simp
next
  case (Cons x xs)
  show ?case
  proof (cases x)
    case Ref
    with Cons [of k] show ?thesis by simp
  next
    case Unref
    with Cons [of k] show ?thesis by simp
  next
    case (Create calloc_ok opened)
    with Cons [of k] Cons [of "Suc k"] show ?thesis by simp
  next
    case Destroy
    show ?thesis
    proof (cases k)
      case 0
      with Destroy Cons [of 0] show ?thesis by simp
    next
      case (Suc k')
      with Destroy Cons [of k'] show ?thesis by simp
    qed
  qed
qed

lemma short_run_bounded:
  assumes "1 + int (length ops) \<le> INT_MAX"
  shows "\<forall>i \<le> length ops. 1 + balance 0 (take i ops) \<le> INT_MAX"
proof (intro allI impI)
  fix i assume "i \<le> length ops"
  have "balance 0 (take i ops) \<le> int (length (take i ops))" by (rule balance_le_length)
  also have "\<dots> \<le> int (length ops)" by simp
  finally show "1 + balance 0 (take i ops) \<le> INT_MAX" using assms by simp
qed

theorem refcount_protocol_witness:
  "faidx_meta_load t_env (Some ''t.fa'') FAI_FASTA 0 = Inr (Some (t_meta\<lparr>ref_count := 1\<rparr>))
   \<and> client_run 0 [Ref, Create True (Some t_bgzf), Unref, Unref, Destroy]
         ([0 \<mapsto> t_meta\<lparr>ref_count := 1\<rparr>], []) = Inr (Map.empty, [])
   \<and> 1 + int (length [Ref, Create True (Some t_bgzf), Unref, Unref, Destroy]) \<le> INT_MAX
   \<and> 1 + balance 0 [Ref, Create True (Some t_bgzf), Unref, Unref, Destroy] = 0
   \<and> client_run 0 [Ref, Create True (Some t_bgzf), Unref]
         ([0 \<mapsto> t_meta\<lparr>ref_count := 1\<rparr>], [])
        = Inr ([0 \<mapsto> t_meta\<lparr>ref_count := 2\<rparr>], [\<lparr>meta = 0, bgzf = t_bgzf\<rparr>])
   \<and> 1 + balance 0 [Ref, Create True (Some t_bgzf), Unref] = 2
   \<and> sint (ref_count (t_meta\<lparr>ref_count := 2\<rparr>)) = 2"
proof -
  let ?ops = "[Ref, Create True (Some t_bgzf), Unref, Unref, Destroy]"
  let ?ops' = "[Ref, Create True (Some t_bgzf), Unref]"
  have "copy_names (\<lambda>i. True) [''s''] 1 0 (Suc 0) = Inr (Some [''s''])" by simp
  then have a: "faidx_meta_load t_env (Some ''t.fa'') FAI_FASTA 0
                  = Inr (Some (t_meta\<lparr>ref_count := 1\<rparr>))"
    by (simp add: faidx_meta_load_def t_env_def t_fai_def t_meta_def Let_def)
  have b: "client_run 0 ?ops ([0 \<mapsto> t_meta\<lparr>ref_count := 1\<rparr>], []) = Inr (Map.empty, [])"
    by (simp add: faidx_meta_ref_def faidx_meta_destroy_def faidx_reader_create_def
        faidx_reader_destroy_def bgzf_open_shared_idx_def t_meta_def Let_def word_sle_eq)
  have c: "client_run 0 ?ops' ([0 \<mapsto> t_meta\<lparr>ref_count := 1\<rparr>], [])
        = Inr ([0 \<mapsto> t_meta\<lparr>ref_count := 2\<rparr>], [\<lparr>meta = 0, bgzf = t_bgzf\<rparr>])"
    by (simp add: faidx_meta_ref_def faidx_meta_destroy_def faidx_reader_create_def
        faidx_reader_destroy_def bgzf_open_shared_idx_def t_meta_def Let_def word_sle_eq)
  have l: "1 + int (length ?ops) \<le> INT_MAX" "1 + int (length ?ops') \<le> INT_MAX"
    by (simp_all add: INT_MAX_def)
  from refcount_protocol [OF a b short_run_bounded [OF l(1)]]
    refcount_protocol [OF a c short_run_bounded [OF l(2)]] a b c l(1)
  show ?thesis by simp
qed

text \<open>
  The claim as it stands fails for a run that holds more references than a C \<^verbatim>\<open>int\<close>
  counts. After \<open>2 ^ 31\<close> calls of \<^verbatim>\<open>faidx_meta_ref\<close> on the object loaded from
  \<^verbatim>\<open>t.fa\<close> the 32-bit \<^verbatim>\<open>ref_count\<close> has wrapped around to \<open>- 2147483647\<close>, and
  one \<^verbatim>\<open>faidx_meta_destroy\<close> then finds it not above zero and frees the object, with
  \<open>2 ^ 31\<close> references still held.
\<close>

theorem refcount_protocol_counterexample:
  "faidx_meta_load t_env (Some ''t.fa'') FAI_FASTA 0 = Inr (Some (t_meta\<lparr>ref_count := 1\<rparr>))
   \<and> client_run 0 (replicate (2 ^ 31) Ref)
         ([0 \<mapsto> t_meta\<lparr>ref_count := 1\<rparr>], ([] :: mem_file faidx_reader_t list))
        = Inr ([0 \<mapsto> t_meta\<lparr>ref_count := - 2147483647\<rparr>], [])
   \<and> client_run 0 (replicate (2 ^ 31) Ref @ [Unref])
         ([0 \<mapsto> t_meta\<lparr>ref_count := 1\<rparr>], ([] :: mem_file faidx_reader_t list))
        = Inr (Map.empty, [])
   \<and> 1 + balance 0 (replicate (2 ^ 31) Ref @ [Unref :: mem_file client_op]) = 2 ^ 31"
proof -
  let ?m = "t_meta\<lparr>ref_count := 1\<rparr>"
  let ?h = "[0 \<mapsto> ?m] :: heap"
  have "copy_names (\<lambda>i. True) [''s''] 1 0 (Suc 0) = Inr (Some [''s''])" by simp
  then have a: "faidx_meta_load t_env (Some ''t.fa'') FAI_FASTA 0 = Inr (Some ?m)"
    by (simp add: faidx_meta_load_def t_env_def t_fai_def t_meta_def Let_def)
  have live: "?h 0 = Some ?m" by simp
  have w: "ref_count ?m + of_nat (2 ^ 31) = (- 2147483647 :: 32 word)" by simp
  have h': "?h(0 \<mapsto> ?m\<lparr>ref_count := ref_count ?m + of_nat (2 ^ 31)\<rparr>)
            = [0 \<mapsto> t_meta\<lparr>ref_count := - 2147483647\<rparr>]"
    unfolding w by simp
  have r0: "client_run 0 (replicate (2 ^ 31) Ref) (?h, ([] :: mem_file faidx_reader_t list))
            = client_run 0 [] ([0 \<mapsto> t_meta\<lparr>ref_count := - 2147483647\<rparr>], [])"
    unfolding client_run_refs [where h = "?h" and mt = "?m" and ops = "[]", OF live,
        unfolded append_Nil2] h' ..
  have r1: "client_run 0 (replicate (2 ^ 31) Ref @ [Unref])
              (?h, ([] :: mem_file faidx_reader_t list))
            = client_run 0 [Unref] ([0 \<mapsto> t_meta\<lparr>ref_count := - 2147483647\<rparr>], [])"
    unfolding client_run_refs [where h = "?h" and mt = "?m", OF live] h' ..
  have u: "client_run 0 [Unref] ([0 \<mapsto> t_meta\<lparr>ref_count := - 2147483647\<rparr>],
                                  ([] :: mem_file faidx_reader_t list))
            = Inr (Map.empty, [])"
    by (simp add: faidx_meta_destroy_def Let_def word_sle_eq)
  have n: "client_run 0 [] ([0 \<mapsto> t_meta\<lparr>ref_count := - 2147483647\<rparr>],
                             ([] :: mem_file faidx_reader_t list))
            = Inr ([0 \<mapsto> t_meta\<lparr>ref_count := - 2147483647\<rparr>], [])"
    by simp
  have b: "1 + balance 0 (replicate (2 ^ 31) Ref @ [Unref :: mem_file client_op]) = 2 ^ 31"
    unfolding balance_refs by simp
  show ?thesis
    unfolding r0 r1 u n b using a by (intro conjI refl)
qed

text \<open>
  The run touches no freed memory as long as the count stays positive before every
  operation.
\<close>

lemma client_run_total:
  assumes "counted m0 a c h" and "\<forall>r \<in> set rs. meta r = a"
    and "\<forall>i < length ops. 0 < c + balance (length rs) (take i ops)"
    and "\<forall>i \<le> length ops. c + balance (length rs) (take i ops) \<le> INT_MAX"
  shows "\<exists>st. client_run a ops (h, rs) = Inr st"
  using assms
proof (induction ops arbitrary: h rs c)
  case Nil
  then show ?case by simp
next
  case (Cons x xs)
  note prems = Cons.prems and IH = Cons.IH
  from prems(3) have "0 < c + balance (length rs) (take 0 (x # xs))" by blast
  then have c: "1 \<le> c" by simp
  with prems(1) have live: "h a = Some (m0\<lparr>ref_count := word_of_int c\<rparr>)"
    by (auto simp: counted_def)
  from prems(4) have "c + balance (length rs) (take (Suc 0) (x # xs)) \<le> INT_MAX"
    by (metis Suc_leI length_Cons zero_less_Suc)
  then have b1: "c + balance (length rs) [x] \<le> INT_MAX" by simp
  have "\<exists>h1 rs1. client_step a x (h, rs) = Inr (h1, rs1)"
  proof (cases x)
    case Ref
    with live show ?thesis by (simp add: faidx_meta_ref_def)
  next
    case Unref
    with live show ?thesis by (simp add: faidx_meta_destroy_def Let_def)
  next
    case (Create calloc_ok opened)
    note rc = reader_create_cases [where h = h and a = a and calloc_ok = calloc_ok
        and bgzf_open = "\<lambda>path. opened", OF live]
    from Create show ?thesis by (auto simp: rc split: option.splits)
  next
    case Destroy
    show ?thesis
    proof (cases rs)
      case Nil
      with Destroy show ?thesis by simp
    next
      case rs: (Cons r rs0)
      with prems(2) have "meta r = a" by simp
      with Destroy rs live show ?thesis
        by (simp add: faidx_reader_destroy_def faidx_meta_destroy_def Let_def)
    qed
  qed
  then obtain h1 rs1 where step: "client_step a x (h, rs) = Inr (h1, rs1)" by blast
  have 1: "counted m0 a (c + balance (length rs) [x]) h1"
    and 2: "\<forall>r \<in> set rs1. meta r = a"
    using client_step_counted [OF step prems(1,2) b1, of "[]"] by blast+
  have 3: "balance (length rs) (x # ys) = balance (length rs) [x] + balance (length rs1) ys"
    for ys
    using client_step_counted [OF step prems(1,2) b1, of ys] by blast
  have 4: "\<forall>i < length xs. 0 < c + balance (length rs) [x] + balance (length rs1) (take i xs)"
  proof (intro allI impI)
    fix i assume "i < length xs"
    then have "Suc i < length (x # xs)" by simp
    with prems(3) have "0 < c + balance (length rs) (take (Suc i) (x # xs))" by blast
    with 3 [of "take i xs"] show "0 < c + balance (length rs) [x] + balance (length rs1) (take i xs)"
      by simp
  qed
  have 5: "\<forall>i \<le> length xs. c + balance (length rs) [x] + balance (length rs1) (take i xs) \<le> INT_MAX"
  proof (intro allI impI)
    fix i assume "i \<le> length xs"
    then have "Suc i \<le> length (x # xs)" by simp
    with prems(4) have "c + balance (length rs) (take (Suc i) (x # xs)) \<le> INT_MAX" by blast
    with 3 [of "take i xs"]
    show "c + balance (length rs) [x] + balance (length rs1) (take i xs) \<le> INT_MAX" by simp
  qed
  from IH [OF 1 2 4 5] step show ?case by simp
qed



section \<open>Loading\<close>

lemma copy_names_all:
  assumes "\<forall>j < length src. ok j" and "int (length src) \<le> cap" and "i + k = length src"
  shows "copy_names ok src cap i k = Inr (Some (drop i src))"
  using assms
proof (induction k arbitrary: i)
  case 0
  then show ?case by simp
next
  case (Suc k)
  then have i: "i < length src" by simp
  with Suc.prems have "copy_names ok src cap (Suc i) k = Inr (Some (drop (Suc i) src))"
    by (intro Suc.IH) simp_all
  with i Suc.prems show ?case by (simp add: Cons_nth_drop_Suc)
qed

lemma put_names_restrict:
  assumes "set xs \<subseteq> dom src"
  shows "put_names src xs h = Inr (\<lambda>x. if x \<in> dom h then h x
                                         else if x \<in> set xs then src x else None)"
  using assms
proof (induction xs arbitrary: h)
  case Nil
  then show ?case by (auto simp: fun_eq_iff domIff)
next
  case (Cons x xs)
  from Cons.prems have sub: "set xs \<subseteq> dom src" by simp
  show ?case
  proof (cases "h x")
    case None
    from Cons.prems obtain v where v: "src x = Some v" by auto
    have "put_names src (x # xs) h = put_names src xs (h(x \<mapsto> v))"
      using None v by simp
    also have "\<dots> = Inr (\<lambda>y. if y \<in> dom (h(x \<mapsto> v)) then (h(x \<mapsto> v)) y
                                else if y \<in> set xs then src y else None)"
      by (rule Cons.IH [OF sub])
    also have "(\<lambda>y. if y \<in> dom (h(x \<mapsto> v)) then (h(x \<mapsto> v)) y
                     else if y \<in> set xs then src y else None)
             = (\<lambda>y. if y \<in> dom h then h y else if y \<in> set (x # xs) then src y else None)"
      using None v by (auto simp: fun_eq_iff domIff)
    finally show ?thesis .
  next
    case (Some w)
    have "put_names src (x # xs) h = put_names src xs h"
      using Some by simp
    also have "\<dots> = Inr (\<lambda>y. if y \<in> dom h then h y
                                else if y \<in> set xs then src y else None)"
      by (rule Cons.IH [OF sub])
    also have "(\<lambda>y. if y \<in> dom h then h y else if y \<in> set xs then src y else None)
             = (\<lambda>y. if y \<in> dom h then h y else if y \<in> set (x # xs) then src y else None)"
      using Some by (auto simp: fun_eq_iff domIff)
    finally show ?thesis .
  qed
qed

text \<open>
  What \<^verbatim>\<open>faidx_meta_load\<close> builds from the index that \<^verbatim>\<open>fai_load3_format\<close> returns,
  when that index has its \<open>n\<close> names within the array and all of them in its table
  and no allocation fails: the names as listed, and for every listed name the descriptor
  that htslib's table has for it (or the fault of \<^verbatim>\<open>bgzf_index_load_direct\<close>, when that
  stores outside its block).
\<close>

lemma faidx_meta_load_names:
  assumes "ksprintf_fai_ok env" and "ksprintf_gzi_ok env" and "calloc_meta_ok env"
    and "mutex_init_ok env" and "malloc_name_ok env" and "kh_init_ok env"
    and "kstrdup_fasta_ok env" and "kstrdup_fai_ok env" and "kstrdup_gzi_ok env"
    and "\<forall>j < length (fai_name fai). kstrdup_name_ok env j"
    and "fai_load3_format env fn (fn @ ''.fai'') (fn @ ''.gzi'') flags fmt = Some fai"
    and "fai_n fai = int (length (fai_name fai))" and "fai_n fai \<le> fai_m fai"
    and "set (fai_name fai) \<subseteq> dom (fai_hash fai)"
  shows "faidx_meta_load env (Some fn) fmt flags =
           (case (if fai_compressed fai \<and> gzi env \<noteq> None then bgzf_index_load_direct env
                  else Inr None) of
              Inl f \<Rightarrow> Inl f
            | Inr loaded \<Rightarrow>
                Inr (Some \<lparr> n = fai_n fai, m = fai_m fai, name = fai_name fai,
                            hash = (\<lambda>x. if x \<in> set (fai_name fai) then fai_hash fai x else None),
                            format = fai_format fai, fasta_path = fn, fai_path = fn @ ''.fai'',
                            gzi_path = fn @ ''.gzi'', bgzf_idx = loaded, ref_count = 1,
                            is_bgzf = fai_compressed fai \<rparr>))"
proof -
  have c: "copy_names (kstrdup_name_ok env) (fai_name fai) (fai_m fai) 0 (nat (fai_n fai))
             = Inr (Some (fai_name fai))"
    using copy_names_all [of "fai_name fai" "kstrdup_name_ok env" "fai_m fai" 0
        "length (fai_name fai)"] assms(10,12,13)
    by simp
  have p: "put_names (fai_hash fai) (fai_name fai) Map.empty =
             Inr (\<lambda>x. if x \<in> set (fai_name fai) then fai_hash fai x else None)"
    using put_names_restrict [OF assms(14), of Map.empty] by simp
  show ?thesis
  proof (cases "fai_compressed fai \<and> gzi env \<noteq> None")
    case True
    with assms(1-9,11) c p show ?thesis
      by (cases "bgzf_index_load_direct env") (simp_all add: faidx_meta_load_def Let_def)
  next
    case False
    with assms(1-9,11) c p show ?thesis
      by (auto simp: faidx_meta_load_def Let_def)
  qed
qed

text \<open>
  Claim C7, on a BGZF-compressed source whose \<^verbatim>\<open>.gzi\<close> file is there and
  \<^verbatim>\<open>bgzf_index_load_direct\<close> fails on it, once by a failed allocation and once by a
  failed read after the count: the null result is not tested, and \<^verbatim>\<open>faidx_meta_load\<close>
  returns an object with \<^verbatim>\<open>is_bgzf\<close> set and a null \<^verbatim>\<open>bgzf_idx\<close>, where the claim asks
  for a failed load.
\<close>

theorem load_gzi_failure_ignored:
  "faidx_meta_load gz_env (Some ''t.fa'') FAI_FASTA 0 =
     Inr (Some \<lparr> n = 1, m = 1, name = [''s''], hash = [''s'' \<mapsto> t_val],
                 format = FAI_FASTA, fasta_path = ''t.fa'', fai_path = ''t.fa.fai'',
                 gzi_path = ''t.fa.gzi'', bgzf_idx = None, ref_count = 1, is_bgzf = True \<rparr>)
   \<and> faidx_meta_load gz_short_env (Some ''t.fa'') FAI_FASTA 0 =
     Inr (Some \<lparr> n = 1, m = 1, name = [''s''], hash = [''s'' \<mapsto> t_val],
                 format = FAI_FASTA, fasta_path = ''t.fa'', fai_path = ''t.fa.fai'',
                 gzi_path = ''t.fa.gzi'', bgzf_idx = None, ref_count = 1, is_bgzf = True \<rparr>)"
proof -
  have "bgzf_index_load_direct gz_env = Inr None"
    by (simp add: bgzf_index_load_direct_def gz_env_def t_env_def Let_def)
  moreover have "bgzf_index_load_direct gz_short_env = Inr None"
    by (simp add: bgzf_index_load_direct_def gz_short_env_def t_env_def Let_def)
  moreover have "copy_names (\<lambda>i. True) [''s''] 1 0 (Suc 0) = Inr (Some [''s''])"
    by simp
  ultimately show ?thesis
    by (simp add: faidx_meta_load_def gz_env_def gz_short_env_def t_env_def t_fai_def Let_def)
qed

end
